theory Spec2Isabelle
  imports Main "HOL-Library.Sublist"
begin

section \<open>Strings and the Go library functions the parser calls\<close>

text \<open>
  A Go string is a sequence of bytes; \<open>string\<close> (a list of 8-bit \<open>char\<close>) models it byte for
  byte. Non-ASCII text is its UTF-8 encoding. The backslash cannot be written inside a
  string literal, so it has a name.
\<close>

abbreviation BS :: char where
  "BS \<equiv> CHR 0x5C"

abbreviation SP :: char where
  "SP \<equiv> CHR 0x20"

abbreviation NL :: char where
  "NL \<equiv> CHR 0x0A"

subsection \<open>Slices\<close>

text \<open>
  A Go slice is either nil or a (possibly empty) sequence; the two are different values
  (\<open>encoding/json\<close> prints the first as \<open>null\<close>, the second as \<open>[]\<close>). \<open>make([]T, 0)\<close> is
  \<open>Slice []\<close>, the zero value of a slice field is \<open>NilSlice\<close>, and \<open>append\<close> of one element
  to either gives a non-nil slice.
\<close>

datatype 'a slice = NilSlice | Slice "'a list"

fun elems :: "'a slice \<Rightarrow> 'a list" where
  "elems NilSlice = []"
| "elems (Slice xs) = xs"

fun append1 :: "'a slice \<Rightarrow> 'a \<Rightarrow> 'a slice" where
  "append1 NilSlice x = Slice [x]"
| "append1 (Slice xs) x = Slice (xs @ [x])"

subsection \<open>strings.TrimSpace\<close>

text \<open>
  \<open>strings.TrimSpace\<close> removes leading, then trailing, white space as \<open>unicode.IsSpace\<close>
  defines it: the six ASCII characters tab, LF, VT, FF, CR, space, and the code points
  U+0085, U+00A0, U+1680, U+2000..U+200A, U+2028, U+2029, U+202F, U+205F, U+3000, here
  in their UTF-8 encodings. Go decodes one rune at the front (or at the back) of the
  string at a time, so a rune is trimmed exactly when its encoding is a prefix (suffix).
\<close>

definition spaceRunes :: "string list" where
  "spaceRunes =
     [[CHR 0x09], [CHR 0x0A], [CHR 0x0B], [CHR 0x0C], [CHR 0x0D], [CHR 0x20],
      [CHR 0xC2, CHR 0x85], [CHR 0xC2, CHR 0xA0], [CHR 0xE1, CHR 0x9A, CHR 0x80],
      [CHR 0xE2, CHR 0x80, CHR 0x80], [CHR 0xE2, CHR 0x80, CHR 0x81],
      [CHR 0xE2, CHR 0x80, CHR 0x82], [CHR 0xE2, CHR 0x80, CHR 0x83],
      [CHR 0xE2, CHR 0x80, CHR 0x84], [CHR 0xE2, CHR 0x80, CHR 0x85],
      [CHR 0xE2, CHR 0x80, CHR 0x86], [CHR 0xE2, CHR 0x80, CHR 0x87],
      [CHR 0xE2, CHR 0x80, CHR 0x88], [CHR 0xE2, CHR 0x80, CHR 0x89],
      [CHR 0xE2, CHR 0x80, CHR 0x8A], [CHR 0xE2, CHR 0x80, CHR 0xA8],
      [CHR 0xE2, CHR 0x80, CHR 0xA9], [CHR 0xE2, CHR 0x80, CHR 0xAF],
      [CHR 0xE2, CHR 0x81, CHR 0x9F], [CHR 0xE3, CHR 0x80, CHR 0x80]]"

definition leadingSpace :: "string \<Rightarrow> nat" where
  \<comment> \<open>the width in bytes of the white-space rune the string starts with, 0 when there is none\<close>
  "leadingSpace s = (case find (\<lambda>w. prefix w s) spaceRunes of None \<Rightarrow> 0 | Some w \<Rightarrow> length w)"

definition trailingSpace :: "string \<Rightarrow> nat" where
  "trailingSpace s = (case find (\<lambda>w. suffix w s) spaceRunes of None \<Rightarrow> 0 | Some w \<Rightarrow> length w)"

lemma leadingSpace_le: "leadingSpace s \<le> length s"
  by (auto simp: leadingSpace_def split: option.splits dest!: find_Some_iff[THEN iffD1] prefix_length_le)

lemma trailingSpace_le: "trailingSpace s \<le> length s"
  by (auto simp: trailingSpace_def split: option.splits dest!: find_Some_iff[THEN iffD1] suffix_length_le)

function TrimLeft :: "string \<Rightarrow> string" where
  "TrimLeft s = (if leadingSpace s = 0 then s else TrimLeft (drop (leadingSpace s) s))"
  by pat_completeness auto
termination
proof (relation "measure length")
  show "wf (measure length)" by simp
next
  fix s :: string
  assume "leadingSpace s \<noteq> 0"
  with leadingSpace_le [of s] show "(drop (leadingSpace s) s, s) \<in> measure length"
    by simp
qed

function TrimRight :: "string \<Rightarrow> string" where
  "TrimRight s = (if trailingSpace s = 0 then s else TrimRight (take (length s - trailingSpace s) s))"
  by pat_completeness auto
termination
proof (relation "measure length")
  show "wf (measure length)" by simp
next
  fix s :: string
  assume "trailingSpace s \<noteq> 0"
  with trailingSpace_le [of s] show "(take (length s - trailingSpace s) s, s) \<in> measure length"
    by simp
qed

declare TrimLeft.simps [simp del] TrimRight.simps [simp del]

definition TrimSpace :: "string \<Rightarrow> string" where
  "TrimSpace s = TrimRight (TrimLeft s)"

subsection \<open>strconv.Atoi\<close>

text \<open>
  \<open>strconv.Atoi\<close> accepts an optional sign followed by one or more decimal digits and
  nothing else, and fails when the value does not fit the \<open>int\<close> type (64 bits here).
  The \<open>*NumError\<close> it returns (syntax or range) is not told apart: the parser only wraps it.
\<close>

definition isDigit :: "char \<Rightarrow> bool" where
  "isDigit c = (of_char c \<ge> (48::nat) \<and> of_char c \<le> (57::nat))"

fun digitsValue :: "int \<Rightarrow> string \<Rightarrow> int" where
  "digitsValue acc [] = acc"
| "digitsValue acc (c # cs) = digitsValue (acc * 10 + (of_char c - 48)) cs"

definition Atoi :: "string \<Rightarrow> int option" where
  "Atoi s =
     (let neg = (s \<noteq> [] \<and> hd s = CHR ''-'');
          ds = (if s \<noteq> [] \<and> (hd s = CHR ''-'' \<or> hd s = CHR ''+'') then tl s else s)
      in if ds = [] \<or> \<not> list_all isDigit ds then None
         else let v = (if neg then - digitsValue 0 ds else digitsValue 0 ds)
              in if v < - (2 ^ 63) \<or> v > 2 ^ 63 - 1 then None else Some v)"

subsection \<open>strings.SplitN(s, " ", 2), strings.ReplaceAll(s, "  ", " "), strings.Contains(s, "  ")\<close>

definition SplitN2 :: "string \<Rightarrow> string list" where
  \<comment> \<open>split at the first space, at most two parts; a string without a space is the only part\<close>
  "SplitN2 s =
     (if SP \<in> set s
      then [takeWhile (\<lambda>c. c \<noteq> SP) s, tl (dropWhile (\<lambda>c. c \<noteq> SP) s)]
      else [s])"

fun containsDouble :: "string \<Rightarrow> bool" where
  "containsDouble (a # b # cs) = ((a = SP \<and> b = SP) \<or> containsDouble (b # cs))"
| "containsDouble cs = False"

fun replaceDouble :: "string \<Rightarrow> string" where
  \<comment> \<open>one left-to-right pass replacing each non-overlapping pair of spaces by one space\<close>
  "replaceDouble (a # b # cs) =
     (if a = SP \<and> b = SP then SP # replaceDouble cs else a # replaceDouble (b # cs))"
| "replaceDouble cs = cs"

lemma replaceDouble_le: "length (replaceDouble s) \<le> length s"
  by (induction s rule: replaceDouble.induct) auto

lemma replaceDouble_less: "containsDouble s \<Longrightarrow> length (replaceDouble s) < length s"
proof (induction s rule: replaceDouble.induct)
  case (1 a b cs)
  then show ?case
    using replaceDouble_le [of cs] by auto
qed auto

function collapseSpaces :: "string \<Rightarrow> string" where
  \<comment> \<open>\<open>for strings.Contains(cleaned, "  ") { cleaned = strings.ReplaceAll(cleaned, "  ", " ") }\<close>\<close>
  "collapseSpaces s = (if containsDouble s then collapseSpaces (replaceDouble s) else s)"
  by pat_completeness auto
termination
  by (relation "measure length") (auto simp: replaceDouble_less)

declare collapseSpaces.simps [simp del]

subsection \<open>bufio.Scanner with the default split function (ScanLines)\<close>

text \<open>
  The reader is the bytes it delivers and whether it ends in a read failure rather
  than in end of file. The scanner yields the lines between line feeds, each without
  one trailing carriage return, and a last unterminated line when it is not empty. It
  stops with \<open>ErrTooLong\<close> at a line of 65536 bytes or more (the buffer is full before the
  line feed is seen); on a read failure it still yields what it has buffered. Its
  \<open>Err()\<close> is the first error met.
\<close>

datatype read_error = ErrTooLong | ErrRead

record reader =
  data :: string
  fails :: bool

definition dropCR :: "string \<Rightarrow> string" where
  "dropCR s = (if s \<noteq> [] \<and> last s = CHR 0x0D then butlast s else s)"

definition MaxScanTokenSize :: int where
  "MaxScanTokenSize = 65536"

function scanLines :: "string \<Rightarrow> string list \<times> bool" where
  \<comment> \<open>the tokens of the scanner and whether it stopped with \<open>ErrTooLong\<close>\<close>
  "scanLines d =
     (if d = [] then ([], False)
      else if MaxScanTokenSize \<le> int (length (takeWhile (\<lambda>c. c \<noteq> NL) d)) then ([], True)
      else case scanLines (drop 1 (dropWhile (\<lambda>c. c \<noteq> NL) d)) of
             (ls, e) \<Rightarrow> (dropCR (takeWhile (\<lambda>c. c \<noteq> NL) d) # ls, e))"
  by pat_completeness auto
termination
proof (relation "measure length")
  show "wf (measure length)" by simp
next
  fix d :: string
  assume "d \<noteq> []"
  moreover have "length (dropWhile (\<lambda>c. c \<noteq> NL) d) \<le> length d"
    by (rule length_dropWhile_le)
  ultimately show "(drop 1 (dropWhile (\<lambda>c. c \<noteq> NL) d), d) \<in> measure length"
    by (cases d) auto
qed

declare scanLines.simps [simp del]

definition scan :: "reader \<Rightarrow> string list \<times> read_error option" where
  "scan r =
     (case scanLines (data r) of
        (ls, tooLong) \<Rightarrow>
          (ls, if tooLong then Some ErrTooLong else if fails r then Some ErrRead else None))"

section \<open>The data model of package usfm\<close>

type_synonym time = nat

record Footnote =
  Footnote_Caller :: string
  Footnote_Reference :: string
  Footnote_Text :: string

record Verse =
  Verse_Number :: int
  Verse_Text :: string
  Verse_Footnotes :: "Footnote slice"

record Section =
  Section_Level :: int
  Section_Title :: string
  Section_Reference :: string
  Section_Verses :: "Verse slice"

record Chapter =
  Chapter_Number :: int
  Chapter_Sections :: "Section slice"

record TOCEntry =
  TOCEntry_Level :: int
  TOCEntry_Text :: string

record Document =
  ID :: string
  Header :: string
  TableOfContents :: "TOCEntry slice"
  MainTitle :: string
  Chapters :: "Chapter slice"
  ParsedAt :: time
  SourceFile :: string

record Marker =
  Tag :: string
  Content :: string
  Line :: nat

record ParseOptions =
  StrictMode :: bool
  IncludeFootnotes :: bool
  IncludeReferences :: bool

definition DefaultParseOptions :: ParseOptions where
  "DefaultParseOptions = \<lparr>StrictMode = False, IncludeFootnotes = True, IncludeReferences = True\<rparr>"

text \<open>
  The errors of the parser are \<open>fmt.Errorf\<close> strings; each message is a constructor:
  \<open>"line does not start with marker"\<close>, \<open>"invalid marker format"\<close>,
  \<open>"invalid chapter number: ..."\<close>, \<open>"invalid verse format"\<close>, \<open>"invalid verse number: ..."\<close>,
  \<open>"unknown marker '\\tag'"\<close>; \<open>"line N: ..."\<close> wraps them in \<open>Parse\<close>, and
  \<open>"error reading input: ..."\<close> wraps the scanner's error.
\<close>

datatype marker_error =
    NotAMarker
  | InvalidMarkerFormat
  | InvalidChapterNumber
  | InvalidVerseFormat
  | InvalidVerseNumber
  | UnknownMarker string

datatype error =
    LineError nat marker_error
  | InputReadFailure read_error

section \<open>The regular expressions of NewParser\<close>

text \<open>
  Go's \<open>regexp\<close> returns the leftmost match and, among the matches that start there, the
  one a backtracking search finds first. \<open>\\s\<close> is \<open>[\\t\\n\\f\\r ]\<close> (no vertical tab, no
  Unicode), \<open>.\<close> is any character other than the line feed, and a negated class matches
  the line feed too. None of the bytes the patterns name occurs inside a multi-byte
  UTF-8 sequence, so matching bytes and matching runes find the same positions.
\<close>

definition reSpace :: "char \<Rightarrow> bool" where
  "reSpace c = (c = CHR 0x09 \<or> c = CHR 0x0A \<or> c = CHR 0x0C \<or> c = CHR 0x0D \<or> c = SP)"

definition tagChar :: "char \<Rightarrow> bool" where
  \<comment> \<open>\<open>[a-z0-9]\<close>\<close>
  "tagChar c = ((97 \<le> (of_char c :: nat) \<and> (of_char c :: nat) \<le> 122) \<or>
                (48 \<le> (of_char c :: nat) \<and> (of_char c :: nat) \<le> 57))"

definition stripPrefix :: "string \<Rightarrow> string \<Rightarrow> string option" where
  "stripPrefix p s = (if prefix p s then Some (drop (length p) s) else None)"

text \<open>
  \<open>markerRegex = ^\\\\([a-z0-9]+)\\*?\\s*(.*)\<close>. Every quantifier is greedy and what follows
  it can match the empty string, so the first path of the search succeeds: the longest
  run of tag characters (at least one), a star when one follows, the longest run of
  \<open>\\s\<close>, and the rest up to the first line feed. The result is the two groups.
\<close>

definition markerRegex :: "string \<Rightarrow> (string \<times> string) option" where
  "markerRegex s =
     (case stripPrefix [BS] s of
        None \<Rightarrow> None
      | Some s1 \<Rightarrow>
          let tag = takeWhile tagChar s1;
              s2 = dropWhile tagChar s1;
              s3 = (case stripPrefix ''*'' s2 of None \<Rightarrow> s2 | Some r \<Rightarrow> r);
              s4 = dropWhile reSpace s3
          in if tag = [] then None else Some (tag, takeWhile (\<lambda>c. c \<noteq> NL) s4))"

text \<open>
  \<open>footnoteRegex = \\\\f\\s*([^\\\\]*?)\\\\fr\\s*([^\\\\]*?)\\\\ft\\s*([^\\\\]*?)\\\\f\\*\<close>. A group
  cannot cross a backslash and is followed by one, so it ends at the next backslash,
  whatever the run of \<open>\\s\<close> before it took; the greedy \<open>\\s*\<close> is tried longest first, and
  that path succeeds whenever any does. \<open>footnoteMatch\<close> is the match that starts at the
  first byte: the three groups and the text after the match.
\<close>

definition notBS :: "char \<Rightarrow> bool" where
  "notBS c = (c \<noteq> BS)"

definition footnoteSegment :: "string \<Rightarrow> string \<Rightarrow> (string \<times> string) option" where
  \<comment> \<open>\<open>opener\\s*([^\\\\]*?)\<close>: the group and the text from the next backslash on\<close>
  "footnoteSegment opener s =
     (case stripPrefix opener s of
        None \<Rightarrow> None
      | Some r \<Rightarrow> Some (takeWhile notBS (dropWhile reSpace r),
                         dropWhile notBS (dropWhile reSpace r)))"

definition footnoteMatch :: "string \<Rightarrow> ((string \<times> string \<times> string) \<times> string) option" where
  "footnoteMatch s =
     (case footnoteSegment (BS # ''f'') s of
        None \<Rightarrow> None
      | Some (g1, s1) \<Rightarrow>
     (case footnoteSegment (BS # ''fr'') s1 of
        None \<Rightarrow> None
      | Some (g2, s2) \<Rightarrow>
     (case footnoteSegment (BS # ''ft'') s2 of
        None \<Rightarrow> None
      | Some (g3, s3) \<Rightarrow>
     (case stripPrefix (BS # ''f*'') s3 of
        None \<Rightarrow> None
      | Some rest \<Rightarrow> Some ((g1, g2, g3), rest)))))"

lemma stripPrefix_length: "stripPrefix p s = Some r \<Longrightarrow> length r + length p = length s"
  by (auto simp: stripPrefix_def prefix_def split: if_splits)

lemma footnoteSegment_length:
  "footnoteSegment p s = Some (g, r) \<Longrightarrow> length r + length p \<le> length s"
proof -
  assume a: "footnoteSegment p s = Some (g, r)"
  then obtain t where t: "stripPrefix p s = Some t" and r: "r = dropWhile notBS (dropWhile reSpace t)"
    by (auto simp: footnoteSegment_def split: option.splits)
  have "length r \<le> length t"
    unfolding r by (meson length_dropWhile_le order_trans)
  with stripPrefix_length [OF t] show ?thesis by simp
qed

lemma footnoteMatch_length: "footnoteMatch s = Some (g, rest) \<Longrightarrow> length rest < length s"
proof -
  assume a: "footnoteMatch s = Some (g, rest)"
  then obtain g1 s1 where s1: "footnoteSegment (BS # ''f'') s = Some (g1, s1)"
    by (auto simp: footnoteMatch_def split: option.splits)
  from a s1 obtain g2 s2 where s2: "footnoteSegment (BS # ''fr'') s1 = Some (g2, s2)"
    by (auto simp: footnoteMatch_def split: option.splits)
  from a s1 s2 obtain g3 s3 where s3: "footnoteSegment (BS # ''ft'') s2 = Some (g3, s3)"
    by (auto simp: footnoteMatch_def split: option.splits)
  from a s1 s2 s3 have r: "stripPrefix (BS # ''f*'') s3 = Some rest"
    by (auto simp: footnoteMatch_def split: option.splits)
  from footnoteSegment_length [OF s1] footnoteSegment_length [OF s2]
    footnoteSegment_length [OF s3] stripPrefix_length [OF r]
  show ?thesis by simp
qed

text \<open>
  \<open>FindAllStringSubmatch(text, -1)\<close> and \<open>ReplaceAllString(text, "")\<close> go through the same
  matches: the leftmost one, then the leftmost one after its end, and so on. A match is
  never empty, so the search resumes exactly where the previous match ended.
\<close>

function FindAllFootnotes :: "string \<Rightarrow> (string \<times> string \<times> string) list" where
  "FindAllFootnotes [] = []"
| "FindAllFootnotes (c # cs) =
     (case footnoteMatch (c # cs) of
        Some (g, rest) \<Rightarrow> g # FindAllFootnotes rest
      | None \<Rightarrow> FindAllFootnotes cs)"
  by pat_completeness auto
termination
  by (relation "measure length") (auto dest: footnoteMatch_length)

function ReplaceAllFootnotes :: "string \<Rightarrow> string" where
  "ReplaceAllFootnotes [] = []"
| "ReplaceAllFootnotes (c # cs) =
     (case footnoteMatch (c # cs) of
        Some (g, rest) \<Rightarrow> ReplaceAllFootnotes rest
      | None \<Rightarrow> c # ReplaceAllFootnotes cs)"
  by pat_completeness auto
termination
  by (relation "measure length") (auto dest: footnoteMatch_length)

section \<open>The parser of package usfm\<close>

definition parseMarker :: "string \<Rightarrow> nat \<Rightarrow> marker_error + Marker" where
  "parseMarker line lineNumber =
     (if \<not> prefix [BS] line then Inl NotAMarker
      else case markerRegex line of
             None \<Rightarrow> Inl InvalidMarkerFormat
           | Some (g1, g2) \<Rightarrow> Inr \<lparr>Tag = g1, Content = TrimSpace g2, Line = lineNumber\<rparr>)"

definition parseChapter :: "string \<Rightarrow> marker_error + int" where
  "parseChapter content =
     (case Atoi (TrimSpace content) of
        None \<Rightarrow> Inl InvalidChapterNumber
      | Some num \<Rightarrow> Inr num)"

definition getSectionLevel :: "string \<Rightarrow> int" where
  "getSectionLevel tag =
     (if tag = ''s1'' then 1 else if tag = ''s2'' then 2 else if tag = ''s3'' then 3 else 1)"

definition extractFootnotes :: "string \<Rightarrow> Footnote slice" where
  "extractFootnotes text =
     Slice (map (\<lambda>(g1, g2, g3).
                   \<lparr>Footnote_Caller = TrimSpace g1,
                    Footnote_Reference = TrimSpace g2,
                    Footnote_Text = TrimSpace g3\<rparr>)
                (FindAllFootnotes text))"

definition removeFootnoteMarkers :: "string \<Rightarrow> string" where
  "removeFootnoteMarkers text = TrimSpace (collapseSpaces (ReplaceAllFootnotes text))"

definition parseVerse :: "string \<Rightarrow> bool \<Rightarrow> marker_error + Verse" where
  "parseVerse content includeFootnotes =
     (let parts = SplitN2 content
      in if length parts < 1 then Inl InvalidVerseFormat
         else case Atoi (hd parts) of
                None \<Rightarrow> Inl InvalidVerseNumber
              | Some verseNum \<Rightarrow>
                  let verseText = (if length parts > 1 then parts ! 1 else [])
                  in if includeFootnotes
                     then Inr \<lparr>Verse_Number = verseNum,
                               Verse_Text = removeFootnoteMarkers verseText,
                               Verse_Footnotes = extractFootnotes verseText\<rparr>
                     else Inr \<lparr>Verse_Number = verseNum,
                               Verse_Text = verseText,
                               Verse_Footnotes = Slice []\<rparr>)"

subsection \<open>Parse\<close>

text \<open>
  The loop of \<open>Parse\<close> keeps the document under construction and two pointers that may be
  nil. A chapter or section is copied into its parent when it is closed and never
  written through the pointer afterwards, so values model the pointers.
\<close>

record state =
  doc :: Document
  currentChapter :: "Chapter option"
  currentSection :: "Section option"

definition initialState :: "time \<Rightarrow> string \<Rightarrow> state" where
  \<comment> \<open>\<open>TableOfContents\<close> is not in the composite literal: it starts as the nil slice\<close>
  "initialState now sourceFile =
     \<lparr>doc = \<lparr>ID = [], Header = [], TableOfContents = NilSlice, MainTitle = [],
              Chapters = Slice [], ParsedAt = now, SourceFile = sourceFile\<rparr>,
      currentChapter = None,
      currentSection = None\<rparr>"

definition closeSection :: "state \<Rightarrow> Chapter option" where
  \<comment> \<open>\<open>if currentSection != nil && currentChapter != nil { currentChapter.Sections = append(...) }\<close>\<close>
  "closeSection st =
     (case (currentSection st, currentChapter st) of
        (Some sec, Some ch) \<Rightarrow> Some (ch\<lparr>Chapter_Sections := append1 (Chapter_Sections ch) sec\<rparr>)
      | _ \<Rightarrow> currentChapter st)"

definition closeChapter :: "Chapter option \<Rightarrow> Document \<Rightarrow> Document" where
  \<comment> \<open>\<open>if currentChapter != nil { doc.Chapters = append(doc.Chapters, *currentChapter) }\<close>\<close>
  "closeChapter ch d =
     (case ch of None \<Rightarrow> d | Some c \<Rightarrow> d\<lparr>Chapters := append1 (Chapters d) c\<rparr>)"

definition addTOC :: "int \<Rightarrow> string \<Rightarrow> state \<Rightarrow> state" where
  "addTOC level txt st =
     st\<lparr>doc := (doc st)\<lparr>TableOfContents :=
            append1 (TableOfContents (doc st)) \<lparr>TOCEntry_Level = level, TOCEntry_Text = txt\<rparr>\<rparr>\<rparr>"

definition handleMarker :: "ParseOptions \<Rightarrow> nat \<Rightarrow> Marker \<Rightarrow> state \<Rightarrow> error + state" where
  \<comment> \<open>the \<open>switch marker.Tag\<close> of the loop body\<close>
  "handleMarker opts lineNumber marker st =
     (if Tag marker = ''id'' then Inr (st\<lparr>doc := (doc st)\<lparr>ID := Content marker\<rparr>\<rparr>)
      else if Tag marker = ''h'' then Inr (st\<lparr>doc := (doc st)\<lparr>Header := Content marker\<rparr>\<rparr>)
      else if Tag marker = ''toc1'' then Inr (addTOC 1 (Content marker) st)
      else if Tag marker = ''toc2'' then Inr (addTOC 2 (Content marker) st)
      else if Tag marker = ''toc3'' then Inr (addTOC 3 (Content marker) st)
      else if Tag marker = ''mt1'' then Inr (st\<lparr>doc := (doc st)\<lparr>MainTitle := Content marker\<rparr>\<rparr>)
      else if Tag marker = ''c'' then
        (case parseChapter (Content marker) of
           Inl e \<Rightarrow> Inl (LineError lineNumber e)
         | Inr chapterNum \<Rightarrow>
             Inr (st\<lparr>doc := closeChapter (closeSection st) (doc st),
                     currentChapter := Some \<lparr>Chapter_Number = chapterNum, Chapter_Sections = Slice []\<rparr>,
                     currentSection := None\<rparr>))
      else if Tag marker = ''s1'' \<or> Tag marker = ''s2'' \<or> Tag marker = ''s3'' then
        Inr (st\<lparr>currentChapter := closeSection st,
                currentSection := Some \<lparr>Section_Level = getSectionLevel (Tag marker),
                                         Section_Title = Content marker,
                                         Section_Reference = [],
                                         Section_Verses = Slice []\<rparr>\<rparr>)
      else if Tag marker = ''r'' then
        (case currentSection st of
           Some sec \<Rightarrow>
             if IncludeReferences opts
             then Inr (st\<lparr>currentSection := Some (sec\<lparr>Section_Reference := Content marker\<rparr>)\<rparr>)
             else Inr st
         | None \<Rightarrow> Inr st)
      else if Tag marker = ''v'' then
        (case parseVerse (Content marker) (IncludeFootnotes opts) of
           Inl e \<Rightarrow> Inl (LineError lineNumber e)
         | Inr verse \<Rightarrow>
             let sec = (case currentSection st of
                          None \<Rightarrow> \<lparr>Section_Level = 1, Section_Title = [],
                                    Section_Reference = [], Section_Verses = Slice []\<rparr>
                        | Some s \<Rightarrow> s)
             in Inr (st\<lparr>currentSection :=
                          Some (sec\<lparr>Section_Verses := append1 (Section_Verses sec) verse\<rparr>)\<rparr>))
      else if StrictMode opts then Inl (LineError lineNumber (UnknownMarker (Tag marker)))
      else Inr st)"

definition step :: "ParseOptions \<Rightarrow> nat \<Rightarrow> string \<Rightarrow> state \<Rightarrow> error + state" where
  \<comment> \<open>one iteration of the loop, \<open>lineNumber\<close> already incremented\<close>
  "step opts lineNumber text st =
     (let line = TrimSpace text
      in if line = [] then Inr st
         else case parseMarker line lineNumber of
                Inl e \<Rightarrow> if StrictMode opts then Inl (LineError lineNumber e) else Inr st
              | Inr marker \<Rightarrow> handleMarker opts lineNumber marker st)"

fun parseLoop :: "ParseOptions \<Rightarrow> nat \<Rightarrow> state \<Rightarrow> string list \<Rightarrow> error + state" where
  \<comment> \<open>\<open>for scanner.Scan() { lineNumber++; ... }\<close>, started with \<open>lineNumber\<close> lines already read\<close>
  "parseLoop opts lineNumber st [] = Inr st"
| "parseLoop opts lineNumber st (l # ls) =
     (case step opts (Suc lineNumber) l st of
        Inl e \<Rightarrow> Inl e
      | Inr st' \<Rightarrow> parseLoop opts (Suc lineNumber) st' ls)"

definition finish :: "state \<Rightarrow> Document" where
  \<comment> \<open>the final section and chapter are added after the loop\<close>
  "finish st = closeChapter (closeSection st) (doc st)"

definition ParseLines ::
  "ParseOptions \<Rightarrow> time \<Rightarrow> string list \<Rightarrow> read_error option \<Rightarrow> string \<Rightarrow> error + Document" where
  \<comment> \<open>\<open>Parse\<close> on the lines the scanner yields and the scanner's final \<open>Err()\<close>\<close>
  "ParseLines opts now ls scanErr sourceFile =
     (case parseLoop opts 0 (initialState now sourceFile) ls of
        Inl e \<Rightarrow> Inl e
      | Inr st \<Rightarrow>
          (case scanErr of
             Some e \<Rightarrow> Inl (InputReadFailure e)
           | None \<Rightarrow> Inr (finish st)))"

definition Parse :: "ParseOptions \<Rightarrow> time \<Rightarrow> reader \<Rightarrow> string \<Rightarrow> error + Document" where
  "Parse opts now r sourceFile =
     (case scan r of (ls, scanErr) \<Rightarrow> ParseLines opts now ls scanErr sourceFile)"

section \<open>The vocabulary of the properties\<close>

text \<open>
  What a line of the input is to the loop: the tag and content it tokenises to after
  trimming (nothing for a blank line and for a line the tokenizer rejects), whether it
  is a chapter marker, and the chapter number it carries.
\<close>

definition lineMarker :: "string \<Rightarrow> (string \<times> string) option" where
  "lineMarker text =
     (case parseMarker (TrimSpace text) 0 of
        Inl e \<Rightarrow> None
      | Inr m \<Rightarrow> Some (Tag m, Content m))"

definition isChapterLine :: "string \<Rightarrow> bool" where
  \<comment> \<open>the line is a \<open>\\c\<close> marker\<close>
  "isChapterLine text = (case lineMarker text of None \<Rightarrow> False | Some (t, c) \<Rightarrow> t = ''c'')"

definition chapterNumber :: "string \<Rightarrow> int list" where
  \<comment> \<open>the number of a \<open>\\c\<close> marker line, nothing for any other line\<close>
  "chapterNumber text =
     (case lineMarker text of
        None \<Rightarrow> []
      | Some (t, c) \<Rightarrow>
          if t = ''c'' then (case parseChapter c of Inl e \<Rightarrow> [] | Inr n \<Rightarrow> [n]) else [])"

definition opened :: "state \<Rightarrow> Chapter list" where
  \<comment> \<open>the chapters met so far: those already in the document, then the open one\<close>
  "opened st =
     elems (Chapters (doc st)) @ (case currentChapter st of None \<Rightarrow> [] | Some c \<Rightarrow> [c])"

definition knownTags :: "string list" where
  \<comment> \<open>the tags the \<open>switch\<close> of \<open>Parse\<close> has a case for\<close>
  "knownTags = [''id'', ''h'', ''toc1'', ''toc2'', ''toc3'', ''mt1'', ''c'', ''s1'', ''s2'', ''s3'', ''r'', ''v'']"

definition asciiSpace :: "char \<Rightarrow> bool" where
  \<comment> \<open>tab, line feed, vertical tab, form feed, carriage return, space\<close>
  "asciiSpace c = (c = CHR 0x09 \<or> c = CHR 0x0A \<or> c = CHR 0x0B \<or> c = CHR 0x0C \<or> c = CHR 0x0D \<or> c = SP)"

definition firstField :: "string \<Rightarrow> string" where
  \<comment> \<open>the first white-space-delimited token of a string that does not start with white space\<close>
  "firstField s = takeWhile (\<lambda>c. \<not> asciiSpace c) s"

definition fatalLine :: "ParseOptions \<Rightarrow> string \<Rightarrow> bool" where
  \<comment> \<open>a line that is an error by itself: in strict mode a non-blank line that is no marker
     or whose tag is unknown, in both modes a chapter marker whose content is no integer
     or a verse marker whose content up to the first space is no integer\<close>
  "fatalLine opts text =
     (case lineMarker text of
        None \<Rightarrow> TrimSpace text \<noteq> [] \<and> StrictMode opts
      | Some (t, c) \<Rightarrow>
          if t = ''c'' then Atoi c = None
          else if t = ''v'' then Atoi (takeWhile (\<lambda>x. x \<noteq> SP) c) = None
          else t \<notin> set knownTags \<and> StrictMode opts)"

definition core :: "state \<Rightarrow> Chapter option \<times> Section option \<times> Chapter slice" where
  \<comment> \<open>the part of the loop's state that decides the chapters of the result\<close>
  "core st = (currentChapter st, currentSection st, Chapters (doc st))"

text \<open>
  The shape of a marker line as the pattern of the code has it: the backslash, one or
  more lowercase letters or digits, an optional star, white space of the pattern
  (\<open>\\s*\<close>, possibly none), and the rest of the line. \<open>markerShapeAsStated\<close> is the shape
  with the white space as a component that is present, the star alone being optional.
\<close>

definition markerShape :: "string \<Rightarrow> bool" where
  "markerShape line =
     (\<exists>tag star ws content.
        line = BS # tag @ star @ ws @ content \<and> tag \<noteq> [] \<and> list_all tagChar tag \<and>
        (star = [] \<or> star = ''*'') \<and> list_all reSpace ws)"

definition markerShapeAsStated :: "string \<Rightarrow> bool" where
  "markerShapeAsStated line =
     (\<exists>tag star ws content.
        line = BS # tag @ star @ ws @ content \<and> tag \<noteq> [] \<and> list_all tagChar tag \<and>
        (star = [] \<or> star = ''*'') \<and> ws \<noteq> [] \<and> list_all reSpace ws)"

text \<open>
  The shape of a footnote block in words: the opener \<open>\\f\<close>, a caller segment, \<open>\\fr\<close>, a
  reference segment, \<open>\\ft\<close>, a text segment and the closer \<open>\\f*\<close>, where a segment is
  white space of the pattern followed by characters other than the backslash.
\<close>

definition footnoteShape :: "string \<Rightarrow> bool" where
  "footnoteShape s =
     (\<exists>w1 g1 w2 g2 w3 g3 r.
        s = (BS # ''f'') @ w1 @ g1 @ (BS # ''fr'') @ w2 @ g2 @ (BS # ''ft'') @ w3 @ g3 @ (BS # ''f*'') @ r \<and>
        list_all reSpace w1 \<and> list_all reSpace w2 \<and> list_all reSpace w3 \<and>
        list_all notBS g1 \<and> list_all notBS g2 \<and> list_all notBS g3)"

definition footnoteOf :: "string \<times> string \<times> string \<Rightarrow> Footnote" where
  \<comment> \<open>the footnote \<open>extractFootnotes\<close> builds from the three groups of a match\<close>
  "footnoteOf g =
     (case g of (g1, g2, g3) \<Rightarrow>
        \<lparr>Footnote_Caller = TrimSpace g1, Footnote_Reference = TrimSpace g2,
         Footnote_Text = TrimSpace g3\<rparr>)"

text \<open>
  Where the search for footnote blocks stands: \<open>scanTo n s\<close> is the text kept and the
  groups of the blocks matched when the search that starts at the front of \<open>s\<close> arrives
  at position \<open>n\<close>, and nothing when it never looks for a block there because position
  \<open>n\<close> is inside a matched block.
\<close>

function scanTo :: "nat \<Rightarrow> string \<Rightarrow> (string \<times> (string \<times> string \<times> string) list) option" where
  "scanTo 0 s = Some ([], [])"
| "scanTo (Suc n) [] = None"
| "scanTo (Suc n) (c # cs) =
     (case footnoteMatch (c # cs) of
        None \<Rightarrow> map_option (\<lambda>(kept, found). (c # kept, found)) (scanTo n cs)
      | Some (g, r) \<Rightarrow>
          if length (c # cs) - length r \<le> Suc n
          then map_option (\<lambda>(kept, found). (kept, g # found))
                 (scanTo (Suc n - (length (c # cs) - length r)) r)
          else None)"
  by pat_completeness auto
termination
  by (relation "measure fst") (auto dest: footnoteMatch_length)

section \<open>Worked inputs\<close>

text \<open>
  C2. The input of three lines \<open>\\id X\<close>, \<open>\\c 1\<close>, \<open>\\v 1 Hello.\<close>, parsed with the default
  options, gives a document with exactly one chapter, number 1, holding exactly one
  section of level 1 with the empty title, holding exactly one verse, number 1, with
  the text \<open>Hello.\<close>: the verse without a section heading before it opens a section.
\<close>

theorem implicit_section_example:
  "Parse DefaultParseOptions now
     \<lparr>data = BS # ''id X'' @ NL # BS # ''c 1'' @ NL # BS # ''v 1 Hello.'', fails = False\<rparr>
     sourceFile =
   Inr \<lparr>ID = ''X'', Header = [], TableOfContents = NilSlice, MainTitle = [],
         Chapters = Slice
           [\<lparr>Chapter_Number = 1,
             Chapter_Sections = Slice
               [\<lparr>Section_Level = 1, Section_Title = [], Section_Reference = [],
                 Section_Verses = Slice
                   [\<lparr>Verse_Number = 1, Verse_Text = ''Hello.'',
                     Verse_Footnotes = Slice []\<rparr>]\<rparr>]\<rparr>],
         ParsedAt = now, SourceFile = sourceFile\<rparr>"
  by code_simp

text \<open>
  C3. The verse content \<open>1 A \\f + \\fr 1:1 \\ft Note text\\f* B\<close>, parsed with footnotes
  included, is verse 1 with the text \<open>A B\<close> and exactly one footnote: caller \<open>+\<close>,
  reference \<open>1:1\<close>, text \<open>Note text\<close>.
\<close>

theorem footnote_example:
  "parseVerse (''1 A '' @ BS # ''f + '' @ BS # ''fr 1:1 '' @ BS # ''ft Note text'' @ BS # ''f* B'') True =
   Inr \<lparr>Verse_Number = 1, Verse_Text = ''A B'',
         Verse_Footnotes = Slice
           [\<lparr>Footnote_Caller = ''+'', Footnote_Reference = ''1:1'',
             Footnote_Text = ''Note text''\<rparr>]\<rparr>"
  by code_simp

section \<open>Verse parsing\<close>

lemma isDigit_SP: "\<not> isDigit SP"
  by (simp add: isDigit_def)

lemma Atoi_no_space: "Atoi s = Some n \<Longrightarrow> SP \<notin> set s"
proof
  assume a: "Atoi s = Some n" and m: "SP \<in> set s"
  define ds where "ds = (if s \<noteq> [] \<and> (hd s = CHR ''-'' \<or> hd s = CHR ''+'') then tl s else s)"
  from a have d: "list_all isDigit ds"
    unfolding Atoi_def ds_def Let_def by (auto split: if_splits)
  from m have "SP \<in> set ds"
    unfolding ds_def by (cases s) auto
  with d show False
    by (auto simp: list_all_iff isDigit_SP)
qed

lemma SplitN2_space: "SP \<notin> set tok \<Longrightarrow> SplitN2 (tok @ SP # body) = [tok, body]"
proof -
  assume "SP \<notin> set tok"
  then have "\<And>x. x \<in> set tok \<Longrightarrow> x \<noteq> SP"
    by auto
  then show ?thesis
    by (simp add: SplitN2_def takeWhile_append2 dropWhile_append2)
qed

lemma SplitN2_cases:
  "(SP \<notin> set s \<and> SplitN2 s = [s]) \<or>
   (\<exists>tok body. SP \<notin> set tok \<and> s = tok @ SP # body \<and> SplitN2 s = [tok, body])"
proof (cases "SP \<in> set s")
  case True
  then obtain tok body where s: "s = tok @ SP # body" and t: "SP \<notin> set tok"
    by (meson split_list_first)
  with SplitN2_space [OF t, of body] show ?thesis by blast
next
  case False
  then show ?thesis by (simp add: SplitN2_def)
qed

lemma parseVerse_footnotes_allocated: "parseVerse content b = Inr v \<Longrightarrow> Verse_Footnotes v \<noteq> NilSlice"
  by (auto simp: parseVerse_def Let_def extractFootnotes_def split: option.splits if_splits)

text \<open>
  C7. With footnote inclusion disabled, whenever a verse results from a verse marker's
  content, the content is the numeric token, one space, and the verse's text: the text
  is the rest after the first space, byte for byte (footnote markup kept, nothing
  removed, collapsed or trimmed), or empty when the content is only the token; and the
  footnotes are the empty sequence.
\<close>

theorem parseVerse_without_footnotes:
  assumes "parseVerse content False = Inr v"
  shows "Verse_Footnotes v = Slice [] \<and>
         (\<exists>tok. SP \<notin> set tok \<and> Atoi tok = Some (Verse_Number v) \<and>
                (content = tok @ SP # Verse_Text v \<or> (content = tok \<and> Verse_Text v = [])))"
proof -
  from SplitN2_cases [of content] show ?thesis
  proof
    assume "SP \<notin> set content \<and> SplitN2 content = [content]"
    with assms show ?thesis
      by (auto simp: parseVerse_def Let_def split: option.splits)
  next
    assume "\<exists>tok body. SP \<notin> set tok \<and> content = tok @ SP # body \<and> SplitN2 content = [tok, body]"
    then obtain tok body where "SP \<notin> set tok" "content = tok @ SP # body" "SplitN2 content = [tok, body]"
      by blast
    with assms show ?thesis
      by (auto simp: parseVerse_def Let_def split: option.splits)
  qed
qed

lemma parseVerse_raw_body:
  "Atoi tok = Some n \<Longrightarrow>
   parseVerse (tok @ SP # body) False = Inr \<lparr>Verse_Number = n, Verse_Text = body, Verse_Footnotes = Slice []\<rparr>"
  by (simp add: parseVerse_def SplitN2_space Atoi_no_space)

theorem parseVerse_without_footnotes_witness:
  "Verse_Footnotes \<lparr>Verse_Number = 3, Verse_Text = '' a  '' @ BS # ''f + '' @ BS # ''fr 1:3 '' @ BS # ''ft n'' @ BS # ''f*  b '', Verse_Footnotes = Slice []\<rparr> = Slice [] \<and>
   (\<exists>tok. SP \<notin> set tok \<and> Atoi tok = Some 3 \<and>
      ''3  a  '' @ BS # ''f + '' @ BS # ''fr 1:3 '' @ BS # ''ft n'' @ BS # ''f*  b '' =
        tok @ SP # ('' a  '' @ BS # ''f + '' @ BS # ''fr 1:3 '' @ BS # ''ft n'' @ BS # ''f*  b ''))"
proof -
  have "parseVerse (''3  a  '' @ BS # ''f + '' @ BS # ''fr 1:3 '' @ BS # ''ft n'' @ BS # ''f*  b '') False =
        Inr \<lparr>Verse_Number = 3, Verse_Text = '' a  '' @ BS # ''f + '' @ BS # ''fr 1:3 '' @ BS # ''ft n'' @ BS # ''f*  b '', Verse_Footnotes = Slice []\<rparr>"
    by code_simp
  from parseVerse_without_footnotes [OF this] show ?thesis
    by auto
qed

text \<open>
  C8 (the part about the table of contents fails). On the empty input, with any options,
  \<open>Parse\<close> succeeds and the document's \<open>TableOfContents\<close> is the nil slice, not an empty
  one: \<open>Parse\<close> allocates \<open>Chapters\<close> and leaves \<open>TableOfContents\<close> out of the literal.
  (\<open>parseVerse_footnotes_allocated\<close> is the part about footnotes, which holds.)
\<close>

theorem toc_nil_on_empty_input:
  "Parse opts now \<lparr>data = [], fails = False\<rparr> sourceFile =
   Inr \<lparr>ID = [], Header = [], TableOfContents = NilSlice, MainTitle = [],
         Chapters = Slice [], ParsedAt = now, SourceFile = sourceFile\<rparr>"
  by (simp add: Parse_def scan_def scanLines.simps ParseLines_def initialState_def finish_def
      closeSection_def closeChapter_def)

section \<open>The loop of Parse\<close>

lemma elems_append1 [simp]: "elems (append1 s x) = elems s @ [x]"
  by (cases s) auto

lemma parseMarker_Line:
  "parseMarker l n = (case parseMarker l 0 of Inl e \<Rightarrow> Inl e | Inr m \<Rightarrow> Inr (m\<lparr>Line := n\<rparr>))"
  by (auto simp: parseMarker_def split: option.splits)

lemma parseMarker_empty [simp]: "parseMarker [] n = Inl NotAMarker"
  by (simp add: parseMarker_def)

lemma handleMarker_Line [simp]: "handleMarker opts n (m\<lparr>Line := k\<rparr>) st = handleMarker opts n m st"
  by (simp add: handleMarker_def split: option.split)

lemma step_lineMarker:
  "step opts n text st =
     (case lineMarker text of
        Some (t, c) \<Rightarrow> handleMarker opts n \<lparr>Tag = t, Content = c, Line = n\<rparr> st
      | None \<Rightarrow>
          if TrimSpace text \<noteq> [] \<and> StrictMode opts
          then Inl (LineError n (case parseMarker (TrimSpace text) 0 of Inl e \<Rightarrow> e | Inr m \<Rightarrow> NotAMarker))
          else Inr st)"
proof (cases "parseMarker (TrimSpace text) 0")
  case (Inl e)
  then show ?thesis
    by (simp add: step_def lineMarker_def Let_def parseMarker_Line [of _ n])
next
  case (Inr m)
  then have ne: "TrimSpace text \<noteq> []"
    by auto
  have "handleMarker opts n (m\<lparr>Line := n\<rparr>) st = handleMarker opts n \<lparr>Tag = Tag m, Content = Content m, Line = n\<rparr> st"
    by (simp add: handleMarker_def split: option.split)
  with Inr ne show ?thesis
    by (simp add: step_def lineMarker_def Let_def parseMarker_Line [of _ n])
qed

lemma parseLoop_append:
  "parseLoop opts n st (xs @ ys) =
     (case parseLoop opts n st xs of
        Inl e \<Rightarrow> Inl e
      | Inr st' \<Rightarrow> parseLoop opts (n + length xs) st' ys)"
  by (induction xs arbitrary: n st) (auto split: sum.splits)

lemma opened_closeChapter:
  "elems (Chapters (closeChapter ch d)) = elems (Chapters d) @ (case ch of None \<Rightarrow> [] | Some c \<Rightarrow> [c])"
  by (auto simp: closeChapter_def split: option.splits)

lemma numbers_closeSection:
  "map Chapter_Number (case closeSection st of None \<Rightarrow> [] | Some c \<Rightarrow> [c]) =
   map Chapter_Number (case currentChapter st of None \<Rightarrow> [] | Some c \<Rightarrow> [c])"
  by (cases "currentSection st"; cases "currentChapter st") (auto simp: closeSection_def)

lemma handleMarker_opened:
  assumes "handleMarker opts n m st = Inr st'"
  shows "map Chapter_Number (opened st') =
         map Chapter_Number (opened st) @
           (if Tag m = ''c'' then (case parseChapter (Content m) of Inl e \<Rightarrow> [] | Inr k \<Rightarrow> [k]) else [])"
proof (cases "Tag m = ''c''")
  case True
  with assms obtain k where k: "parseChapter (Content m) = Inr k"
    and st': "st' = st\<lparr>doc := closeChapter (closeSection st) (doc st),
                     currentChapter := Some \<lparr>Chapter_Number = k, Chapter_Sections = Slice []\<rparr>,
                     currentSection := None\<rparr>"
    by (auto simp: handleMarker_def split: sum.splits)
  show ?thesis
    using True k numbers_closeSection [of st]
    by (simp add: st' opened_def opened_closeChapter)
next
  case False
  with assms have "map Chapter_Number (opened st') = map Chapter_Number (opened st)"
    using numbers_closeSection [of st]
    by (auto simp: handleMarker_def opened_def addTOC_def Let_def split: if_splits sum.splits option.splits)
  with False show ?thesis by simp
qed

lemma step_opened:
  assumes "step opts n text st = Inr st'"
  shows "map Chapter_Number (opened st') = map Chapter_Number (opened st) @ chapterNumber text"
proof (cases "lineMarker text")
  case None
  with assms show ?thesis
    by (auto simp: step_lineMarker chapterNumber_def split: if_splits)
next
  case (Some p)
  obtain t c where p: "p = (t, c)" by (cases p)
  from assms Some p have "handleMarker opts n \<lparr>Tag = t, Content = c, Line = n\<rparr> st = Inr st'"
    by (simp add: step_lineMarker)
  from handleMarker_opened [OF this] Some p show ?thesis
    by (simp add: chapterNumber_def)
qed

lemma parseLoop_opened:
  "parseLoop opts n st ls = Inr st' \<Longrightarrow>
   map Chapter_Number (opened st') = map Chapter_Number (opened st) @ concat (map chapterNumber ls)"
proof (induction ls arbitrary: n st)
  case Nil
  then show ?case by simp
next
  case (Cons l ls)
  then obtain s1 where s1: "step opts (Suc n) l st = Inr s1" and r: "parseLoop opts (Suc n) s1 ls = Inr st'"
    by (auto split: sum.splits)
  from Cons.IH [OF r] step_opened [OF s1] show ?case by simp
qed

lemma step_chapterLine_length:
  assumes "step opts n text st = Inr st'"
  shows "length (chapterNumber text) = (if isChapterLine text then 1 else 0)"
  using assms
  by (auto simp: step_lineMarker chapterNumber_def isChapterLine_def handleMarker_def
      split: option.splits sum.splits if_splits)

lemma parseLoop_count:
  "parseLoop opts n st ls = Inr st' \<Longrightarrow>
   length (concat (map chapterNumber ls)) = length (filter isChapterLine ls)"
proof (induction ls arbitrary: n st)
  case Nil
  then show ?case by simp
next
  case (Cons l ls)
  then obtain s1 where s1: "step opts (Suc n) l st = Inr s1" and r: "parseLoop opts (Suc n) s1 ls = Inr st'"
    by (auto split: sum.splits)
  from Cons.IH [OF r] step_chapterLine_length [OF s1] show ?case by simp
qed

lemma finish_chapters: "map Chapter_Number (elems (Chapters (finish st))) = map Chapter_Number (opened st)"
  using numbers_closeSection [of st] by (simp add: finish_def opened_closeChapter opened_def)

text \<open>
  C1. When an input parses successfully, the chapter numbers of the document, in order,
  are the numbers of the chapter markers of the input, in order: one chapter for each
  chapter marker, in encounter order whatever the numbers are.
\<close>

theorem chapters_in_encounter_order:
  assumes "ParseLines opts now ls scanErr sourceFile = Inr d"
  shows "map Chapter_Number (elems (Chapters d)) = concat (map chapterNumber ls) \<and>
         length (elems (Chapters d)) = length (filter isChapterLine ls)"
proof -
  from assms obtain st where st: "parseLoop opts 0 (initialState now sourceFile) ls = Inr st"
    and d: "d = finish st"
    by (auto simp: ParseLines_def split: sum.splits option.splits)
  have o: "opened (initialState now sourceFile) = []"
    by (simp add: opened_def initialState_def)
  from parseLoop_opened [OF st] have n: "map Chapter_Number (elems (Chapters d)) = concat (map chapterNumber ls)"
    by (simp add: d finish_chapters o)
  from arg_cong [OF n, of length] parseLoop_count [OF st] have "length (elems (Chapters d)) = length (filter isChapterLine ls)"
    by simp
  with n show ?thesis by simp
qed

theorem chapters_in_encounter_order_witness:
  "ParseLines DefaultParseOptions 0 [BS # ''c 2'', BS # ''v 1 a'', BS # ''c 1''] None [] =
     Inr \<lparr>ID = [], Header = [], TableOfContents = NilSlice, MainTitle = [],
           Chapters = Slice
             [\<lparr>Chapter_Number = 2,
               Chapter_Sections = Slice
                 [\<lparr>Section_Level = 1, Section_Title = [], Section_Reference = [],
                   Section_Verses = Slice
                     [\<lparr>Verse_Number = 1, Verse_Text = ''a'', Verse_Footnotes = Slice []\<rparr>]\<rparr>]\<rparr>,
              \<lparr>Chapter_Number = 1, Chapter_Sections = Slice []\<rparr>],
           ParsedAt = 0, SourceFile = []\<rparr> \<and>
   concat (map chapterNumber [BS # ''c 2'', BS # ''v 1 a'', BS # ''c 1'']) = [2, 1] \<and>
   length (filter isChapterLine [BS # ''c 2'', BS # ''v 1 a'', BS # ''c 1'']) = 2"
proof -
  have h: "ParseLines DefaultParseOptions 0 [BS # ''c 2'', BS # ''v 1 a'', BS # ''c 1''] None [] =
     Inr \<lparr>ID = [], Header = [], TableOfContents = NilSlice, MainTitle = [],
           Chapters = Slice
             [\<lparr>Chapter_Number = 2,
               Chapter_Sections = Slice
                 [\<lparr>Section_Level = 1, Section_Title = [], Section_Reference = [],
                   Section_Verses = Slice
                     [\<lparr>Verse_Number = 1, Verse_Text = ''a'', Verse_Footnotes = Slice []\<rparr>]\<rparr>]\<rparr>,
              \<lparr>Chapter_Number = 1, Chapter_Sections = Slice []\<rparr>],
           ParsedAt = 0, SourceFile = []\<rparr>"
    by code_simp
  from chapters_in_encounter_order [OF h] h show ?thesis
    by simp
qed

section \<open>Trimming twice\<close>

lemma spaceRunes_nonempty: "w \<in> set spaceRunes \<Longrightarrow> w \<noteq> []"
  by (auto simp: spaceRunes_def)

lemma leadingSpace_zero_iff: "leadingSpace s = 0 \<longleftrightarrow> (\<forall>w \<in> set spaceRunes. \<not> prefix w s)"
proof (cases "find (\<lambda>w. prefix w s) spaceRunes")
  case None
  then have "\<forall>w \<in> set spaceRunes. \<not> prefix w s"
    by (simp add: find_None_iff)
  moreover from None have "leadingSpace s = 0"
    by (simp add: leadingSpace_def)
  ultimately show ?thesis by simp
next
  case (Some w)
  then have "w \<in> set spaceRunes" "prefix w s"
    by (auto simp: find_Some_iff)
  with Some spaceRunes_nonempty [of w] show ?thesis
    by (auto simp: leadingSpace_def)
qed

lemma trailingSpace_zero_iff: "trailingSpace s = 0 \<longleftrightarrow> (\<forall>w \<in> set spaceRunes. \<not> suffix w s)"
proof (cases "find (\<lambda>w. suffix w s) spaceRunes")
  case None
  then have "\<forall>w \<in> set spaceRunes. \<not> suffix w s"
    by (simp add: find_None_iff)
  moreover from None have "trailingSpace s = 0"
    by (simp add: trailingSpace_def)
  ultimately show ?thesis by simp
next
  case (Some w)
  then have "w \<in> set spaceRunes" "suffix w s"
    by (auto simp: find_Some_iff)
  with Some spaceRunes_nonempty [of w] show ?thesis
    by (auto simp: trailingSpace_def)
qed

lemma TrimLeft_done: "leadingSpace (TrimLeft s) = 0"
  by (induction s rule: TrimLeft.induct) (subst TrimLeft.simps, simp)

lemma TrimRight_done: "trailingSpace (TrimRight s) = 0"
  by (induction s rule: TrimRight.induct) (subst TrimRight.simps, simp)

lemma TrimRight_prefix: "prefix (TrimRight s) s"
proof (induction s rule: TrimRight.induct)
  case (1 s)
  show ?case
  proof (cases "trailingSpace s = 0")
    case True
    then show ?thesis by (subst TrimRight.simps) simp
  next
    case False
    from 1 [OF False] have "prefix (TrimRight (take (length s - trailingSpace s) s)) s"
      by (meson prefix_order.trans take_is_prefix)
    with False show ?thesis by (subst TrimRight.simps) simp
  qed
qed

lemma TrimLeft_id: "leadingSpace s = 0 \<Longrightarrow> TrimLeft s = s"
  by (subst TrimLeft.simps) simp

lemma TrimRight_id: "trailingSpace s = 0 \<Longrightarrow> TrimRight s = s"
  by (subst TrimRight.simps) simp

lemma TrimSpace_idem [simp]: "TrimSpace (TrimSpace s) = TrimSpace s"
proof -
  have "leadingSpace (TrimRight (TrimLeft s)) = 0"
    using TrimLeft_done [of s] TrimRight_prefix [of "TrimLeft s"]
    unfolding leadingSpace_zero_iff by (meson prefix_order.trans)
  then show ?thesis
    by (simp add: TrimSpace_def TrimLeft_id TrimRight_id TrimRight_done)
qed

lemma TrimSpace_Nil [simp]: "TrimSpace [] = []"
proof -
  have "leadingSpace [] = 0" "trailingSpace [] = 0"
    using leadingSpace_le [of "[]"] trailingSpace_le [of "[]"] by simp_all
  then show ?thesis
    by (simp add: TrimSpace_def TrimLeft_id TrimRight_id)
qed

lemma lineMarker_trimmed: "lineMarker l = Some (t, c) \<Longrightarrow> TrimSpace c = c"
  by (auto simp: lineMarker_def parseMarker_def split: sum.splits option.splits if_splits)

section \<open>Line numbers and errors\<close>

lemma handleMarker_error: "handleMarker opts n m st = Inl e \<Longrightarrow> \<exists>k. e = LineError n k"
  by (auto simp: handleMarker_def Let_def split: if_splits sum.splits option.splits)

lemma step_error: "step opts n l st = Inl e \<Longrightarrow> \<exists>k. e = LineError n k"
  by (auto simp: step_lineMarker split: option.splits if_splits dest: handleMarker_error)

lemma parseLoop_error:
  "parseLoop opts n st ls = Inl e \<Longrightarrow> \<exists>m k. e = LineError m k \<and> n < m \<and> m \<le> n + length ls"
proof (induction ls arbitrary: n st)
  case Nil
  then show ?case by simp
next
  case (Cons l ls)
  show ?case
  proof (cases "step opts (Suc n) l st")
    case (Inl e')
    with Cons.prems step_error [OF Inl] show ?thesis by auto
  next
    case (Inr s1)
    with Cons.prems have "parseLoop opts (Suc n) s1 ls = Inl e" by simp
    from Cons.IH [OF this] show ?thesis by auto
  qed
qed

lemma handleMarker_success: "handleMarker opts n m st = Inr s \<Longrightarrow> handleMarker opts k m st = Inr s"
  by (auto simp: handleMarker_def Let_def split: if_splits sum.splits option.splits)

lemma step_success:
  assumes "step opts n l st = Inr s"
  shows "step opts k l st = Inr s"
proof (cases "lineMarker l")
  case None
  with assms show ?thesis
    by (auto simp: step_lineMarker split: if_splits)
next
  case (Some p)
  obtain t c where p: "p = (t, c)" by (cases p)
  from assms Some p have "handleMarker opts n \<lparr>Tag = t, Content = c, Line = n\<rparr> st = Inr s"
    by (simp add: step_lineMarker)
  then have "handleMarker opts k \<lparr>Tag = t, Content = c, Line = n\<rparr> st = Inr s"
    by (rule handleMarker_success)
  then have "handleMarker opts k (\<lparr>Tag = t, Content = c, Line = n\<rparr>\<lparr>Line := k\<rparr>) st = Inr s"
    by (simp only: handleMarker_Line)
  with Some p show ?thesis
    by (simp add: step_lineMarker)
qed

lemma parseLoop_success: "parseLoop opts n st ls = Inr s \<Longrightarrow> parseLoop opts k st ls = Inr s"
proof (induction ls arbitrary: n k st)
  case Nil
  then show ?case by simp
next
  case (Cons l ls)
  then obtain s1 where s1: "step opts (Suc n) l st = Inr s1" and r: "parseLoop opts (Suc n) s1 ls = Inr s"
    by (auto split: sum.splits)
  from step_success [OF s1, of "Suc k"] Cons.IH [OF r, of "Suc k"] show ?case by simp
qed

lemma step_blank [simp]: "step opts n [] st = Inr st"
  by (simp add: step_def)

lemma ParseLines_prefix_ok:
  "\<not> isl (ParseLines opts now pre None src) \<longleftrightarrow> \<not> isl (parseLoop opts 0 (initialState now src) pre)"
  by (auto simp: ParseLines_def split: sum.splits)

lemma ParseLines_fatal_line:
  assumes "\<And>n st. \<exists>k. step opts n l st = Inl (LineError n k)"
  shows "\<exists>n k. ParseLines opts now (pre @ l # post) scanErr src = Inl (LineError n k) \<and>
               1 \<le> n \<and> n \<le> Suc (length pre)"
proof (cases "parseLoop opts 0 (initialState now src) pre")
  case (Inl e)
  from parseLoop_error [OF Inl] Inl show ?thesis
    by (auto simp: ParseLines_def parseLoop_append)
next
  case (Inr st)
  from assms [of "Suc (length pre)" st] Inr show ?thesis
    by (auto simp: ParseLines_def parseLoop_append)
qed

lemma ParseLines_first_fatal_line:
  assumes "\<And>st. step opts (Suc (length pre)) l st = Inl e"
    and "\<not> isl (ParseLines opts now pre None src)"
  shows "ParseLines opts now (pre @ l # post) scanErr src = Inl e"
proof -
  from assms(2) obtain st where "parseLoop opts 0 (initialState now src) pre = Inr st"
    unfolding ParseLines_prefix_ok by (cases "parseLoop opts 0 (initialState now src) pre") auto
  with assms(1) [of st] show ?thesis
    by (simp add: ParseLines_def parseLoop_append)
qed

section \<open>Unknown markers\<close>

lemma handleMarker_unknown:
  "Tag m \<notin> set knownTags \<Longrightarrow>
   handleMarker opts n m st =
     (if StrictMode opts then Inl (LineError n (UnknownMarker (Tag m))) else Inr st)"
  by (simp add: handleMarker_def knownTags_def)

lemma step_unknown:
  "lineMarker l = Some (t, c) \<Longrightarrow> t \<notin> set knownTags \<Longrightarrow>
   step opts n l st = (if StrictMode opts then Inl (LineError n (UnknownMarker t)) else Inr st)"
  by (simp add: step_lineMarker handleMarker_unknown)

lemma ParseLines_blank_line:
  "(ParseLines opts now (pre @ [] # post) scanErr src = Inr d) =
   (ParseLines opts now (pre @ post) scanErr src = Inr d)"
proof (cases "parseLoop opts 0 (initialState now src) pre")
  case (Inl e)
  then show ?thesis
    by (simp add: ParseLines_def parseLoop_append)
next
  case (Inr st)
  show ?thesis
  proof (cases "parseLoop opts (length pre) st post")
    case a: (Inl e)
    have "isl (parseLoop opts (Suc (length pre)) st post)"
      using a parseLoop_success [of opts "Suc (length pre)" st post _ "length pre"]
      by (cases "parseLoop opts (Suc (length pre)) st post") auto
    with Inr a show ?thesis
      by (auto simp: ParseLines_def parseLoop_append split: sum.splits)
  next
    case b: (Inr s)
    from parseLoop_success [OF b, of "Suc (length pre)"] Inr b show ?thesis
      by (simp add: ParseLines_def parseLoop_append)
  qed
qed

text \<open>
  C4, as the code has it. Let a line of the input tokenise to a tag that is not one of
  the twelve recognized tags. In strict mode \<open>Parse\<close> returns an error with a line number
  and no document, and when the lines before it parse without error the error is
  \<open>UnknownMarker\<close> with the 1-based number of that line. In lenient mode the line does
  what a blank line does: the outcome is the outcome for the input with the line
  blanked, and \<open>Parse\<close> returns a document exactly when it does for the input without the
  line, and then the same document.
\<close>

theorem unknown_marker_line:
  assumes "lineMarker l = Some (t, c)" and "t \<notin> set knownTags"
  shows "(\<exists>n k. ParseLines (opts\<lparr>StrictMode := True\<rparr>) now (pre @ l # post) scanErr src =
                  Inl (LineError n k) \<and> 1 \<le> n \<and> n \<le> Suc (length pre)) \<and>
         (\<not> isl (ParseLines (opts\<lparr>StrictMode := True\<rparr>) now pre None src) \<longrightarrow>
            ParseLines (opts\<lparr>StrictMode := True\<rparr>) now (pre @ l # post) scanErr src =
              Inl (LineError (Suc (length pre)) (UnknownMarker t))) \<and>
         ParseLines (opts\<lparr>StrictMode := False\<rparr>) now (pre @ l # post) scanErr src =
           ParseLines (opts\<lparr>StrictMode := False\<rparr>) now (pre @ [] # post) scanErr src \<and>
         ((ParseLines (opts\<lparr>StrictMode := False\<rparr>) now (pre @ l # post) scanErr src = Inr d) =
          (ParseLines (opts\<lparr>StrictMode := False\<rparr>) now (pre @ post) scanErr src = Inr d))"
proof -
  let ?s = "opts\<lparr>StrictMode := True\<rparr>" and ?l = "opts\<lparr>StrictMode := False\<rparr>"
  have strict: "step ?s n l st = Inl (LineError n (UnknownMarker t))" for n st
    using step_unknown [OF assms, of ?s n st] by simp
  have lenient: "step ?l n l st = step ?l n [] st" for n st
    using step_unknown [OF assms, of ?l n st] by simp
  have a: "\<exists>n k. ParseLines ?s now (pre @ l # post) scanErr src = Inl (LineError n k) \<and>
                 1 \<le> n \<and> n \<le> Suc (length pre)"
    by (rule ParseLines_fatal_line) (simp add: strict)
  have b: "\<not> isl (ParseLines ?s now pre None src) \<longrightarrow>
           ParseLines ?s now (pre @ l # post) scanErr src =
             Inl (LineError (Suc (length pre)) (UnknownMarker t))"
    using ParseLines_first_fatal_line [of ?s pre l _ now src post scanErr] strict by blast
  have c: "ParseLines ?l now (pre @ l # post) scanErr src = ParseLines ?l now (pre @ [] # post) scanErr src"
    by (cases "parseLoop ?l 0 (initialState now src) pre")
      (simp_all add: ParseLines_def parseLoop_append lenient)
  from a b c ParseLines_blank_line [of ?l now pre post scanErr src d] show ?thesis
    by simp
qed

theorem unknown_marker_line_witness:
  "ParseLines (DefaultParseOptions\<lparr>StrictMode := True\<rparr>) 0
     [BS # ''id X'', BS # ''xyz foo'', BS # ''c 1''] None [] =
     Inl (LineError 2 (UnknownMarker ''xyz'')) \<and>
   ParseLines (DefaultParseOptions\<lparr>StrictMode := False\<rparr>) 0
     [BS # ''id X'', BS # ''xyz foo'', BS # ''c 1''] None [] =
     Inr \<lparr>ID = ''X'', Header = [], TableOfContents = NilSlice, MainTitle = [],
           Chapters = Slice [\<lparr>Chapter_Number = 1, Chapter_Sections = Slice []\<rparr>],
           ParsedAt = 0, SourceFile = []\<rparr>"
proof -
  let ?d = "\<lparr>ID = ''X'', Header = [], TableOfContents = NilSlice, MainTitle = [],
           Chapters = Slice [\<lparr>Chapter_Number = 1, Chapter_Sections = Slice []\<rparr>],
           ParsedAt = 0, SourceFile = []\<rparr>"
  have h1: "lineMarker (BS # ''xyz foo'') = Some (''xyz'', ''foo'')"
    by code_simp
  have h2: "''xyz'' \<notin> set knownTags"
    by (simp add: knownTags_def)
  have h3: "\<not> isl (ParseLines (DefaultParseOptions\<lparr>StrictMode := True\<rparr>) 0 [BS # ''id X''] None [])"
    by code_simp
  have h4: "ParseLines (DefaultParseOptions\<lparr>StrictMode := False\<rparr>) 0
              ([BS # ''id X''] @ [BS # ''c 1'']) None [] = Inr ?d"
    by code_simp
  note t = unknown_marker_line [OF h1 h2, where opts = DefaultParseOptions and now = 0
      and pre = "[BS # ''id X'']" and post = "[BS # ''c 1'']" and scanErr = None and src = "[]"
      and d = ?d]
  from t h3 have s: "ParseLines (DefaultParseOptions\<lparr>StrictMode := True\<rparr>) 0
      ([BS # ''id X''] @ (BS # ''xyz foo'') # [BS # ''c 1'']) None [] =
      Inl (LineError (Suc (length [BS # ''id X''])) (UnknownMarker ''xyz''))"
    by blast
  from t h4 have l: "ParseLines (DefaultParseOptions\<lparr>StrictMode := False\<rparr>) 0
      ([BS # ''id X''] @ (BS # ''xyz foo'') # [BS # ''c 1'']) None [] = Inr ?d"
    by blast
  from s l show ?thesis
    by (simp add: numeral_2_eq_2)
qed

text \<open>
  C4, counterexample. The claim as stated fails: an input with an unrecognized marker on line 1 and a
  chapter marker without a number on line 2 does not parse in lenient mode, and in
  strict mode a line that is not a marker before the unrecognized marker is the error
  reported, not the unrecognized marker.
\<close>

theorem unknown_marker_counterexample:
  "lineMarker (BS # ''xyz foo'') = Some (''xyz'', ''foo'') \<and> ''xyz'' \<notin> set knownTags \<and>
   \<not> StrictMode DefaultParseOptions \<and>
   ParseLines DefaultParseOptions 0 [BS # ''xyz foo'', BS # ''c abc''] None [] =
     Inl (LineError 2 InvalidChapterNumber) \<and>
   ParseLines (DefaultParseOptions\<lparr>StrictMode := True\<rparr>) 0 [''text'', BS # ''xyz foo''] None [] =
     Inl (LineError 1 NotAMarker)"
  by code_simp

section \<open>Chapter and verse numbers\<close>

lemma isDigit_not_space: "isDigit c \<Longrightarrow> \<not> asciiSpace c"
  by (auto simp: isDigit_def asciiSpace_def)

lemma Atoi_no_asciiSpace:
  assumes "Atoi s = Some n"
  shows "\<forall>c \<in> set s. \<not> asciiSpace c"
proof -
  define ds where "ds = (if s \<noteq> [] \<and> (hd s = CHR ''-'' \<or> hd s = CHR ''+'') then tl s else s)"
  from assms have d: "list_all isDigit ds"
    unfolding Atoi_def ds_def Let_def by (auto split: if_splits)
  have "set s \<subseteq> set ds \<union> {CHR ''-'', CHR ''+''}"
    unfolding ds_def by (cases s) auto
  moreover have "\<not> asciiSpace CHR ''-''" "\<not> asciiSpace CHR ''+''"
    by (simp_all add: asciiSpace_def)
  ultimately show ?thesis
    using d isDigit_not_space by (auto simp: list_all_iff)
qed

lemma takeWhile_takeWhile_weaker:
  "(\<And>x. P x \<Longrightarrow> Q x) \<Longrightarrow> takeWhile P (takeWhile Q xs) = takeWhile P xs"
  by (induction xs) auto

lemma firstField_of_token:
  assumes "Atoi (takeWhile (\<lambda>c. c \<noteq> SP) s) = Some n"
  shows "firstField s = takeWhile (\<lambda>c. c \<noteq> SP) s"
proof -
  have "firstField s = firstField (takeWhile (\<lambda>c. c \<noteq> SP) s)"
    unfolding firstField_def
    by (rule takeWhile_takeWhile_weaker [symmetric]) (auto simp: asciiSpace_def)
  also have "\<dots> = takeWhile (\<lambda>c. c \<noteq> SP) s"
    unfolding firstField_def using Atoi_no_asciiSpace [OF assms]
    by (simp add: takeWhile_eq_all_conv)
  finally show ?thesis .
qed

lemma hd_SplitN2: "hd (SplitN2 s) = takeWhile (\<lambda>c. c \<noteq> SP) s"
proof (cases "SP \<in> set s")
  case True
  then show ?thesis by (simp add: SplitN2_def)
next
  case False
  then have e: "takeWhile (\<lambda>c. c \<noteq> SP) s = s"
    by (induction s) auto
  from False have "hd (SplitN2 s) = s"
    by (simp add: SplitN2_def)
  then show ?thesis
    by (simp only: e)
qed

lemma parseVerse_fails_iff:
  "parseVerse content b = Inl e \<longleftrightarrow>
   e = InvalidVerseNumber \<and> Atoi (takeWhile (\<lambda>c. c \<noteq> SP) content) = None"
  using hd_SplitN2 [of content]
  by (auto simp: parseVerse_def Let_def SplitN2_def split: option.splits if_splits)

lemma parseVerse_firstField:
  "Atoi (firstField content) = None \<Longrightarrow> parseVerse content b = Inl InvalidVerseNumber"
  using firstField_of_token [of content] parseVerse_fails_iff [of content b InvalidVerseNumber]
  by (cases "Atoi (takeWhile (\<lambda>c. c \<noteq> SP) content)") auto

text \<open>
  C5. In either mode, a chapter marker whose content is not an integer, or a verse
  marker whose first white-space-delimited token is not an integer, makes \<open>Parse\<close> return
  an error with a 1-based line number and no document; when the lines before it parse
  without error, the error is the one of that line, with that line's number.
\<close>

theorem numeric_failure_is_fatal:
  assumes "lineMarker l = Some (t, c)"
    and "(t = ''c'' \<and> Atoi c = None) \<or> (t = ''v'' \<and> Atoi (firstField c) = None)"
  shows "(\<exists>n k. ParseLines opts now (pre @ l # post) scanErr src = Inl (LineError n k) \<and>
                1 \<le> n \<and> n \<le> Suc (length pre)) \<and>
         (\<not> isl (ParseLines opts now pre None src) \<longrightarrow>
            ParseLines opts now (pre @ l # post) scanErr src =
              Inl (LineError (Suc (length pre))
                    (if t = ''c'' then InvalidChapterNumber else InvalidVerseNumber)))"
proof -
  have fatal: "step opts n l st =
      Inl (LineError n (if t = ''c'' then InvalidChapterNumber else InvalidVerseNumber))" for n st
  proof -
    from assms(2) show ?thesis
    proof
      assume "t = ''c'' \<and> Atoi c = None"
      with assms(1) lineMarker_trimmed [OF assms(1)] show ?thesis
        by (simp add: step_lineMarker handleMarker_def parseChapter_def)
    next
      assume "t = ''v'' \<and> Atoi (firstField c) = None"
      with assms(1) parseVerse_firstField [of c "IncludeFootnotes opts"] show ?thesis
        by (simp add: step_lineMarker handleMarker_def)
    qed
  qed
  have a: "\<exists>n k. ParseLines opts now (pre @ l # post) scanErr src = Inl (LineError n k) \<and>
                 1 \<le> n \<and> n \<le> Suc (length pre)"
    by (rule ParseLines_fatal_line) (simp add: fatal)
  have b: "\<not> isl (ParseLines opts now pre None src) \<longrightarrow>
           ParseLines opts now (pre @ l # post) scanErr src =
             Inl (LineError (Suc (length pre))
                   (if t = ''c'' then InvalidChapterNumber else InvalidVerseNumber))"
    using ParseLines_first_fatal_line [of opts pre l _ now src post scanErr] fatal by blast
  from a b show ?thesis by simp
qed

theorem numeric_failure_is_fatal_witness:
  "ParseLines DefaultParseOptions 0 [BS # ''c 1'', BS # ''v 1b text'', BS # ''v 2 more''] None [] =
     Inl (LineError 2 InvalidVerseNumber)"
proof -
  have h1: "lineMarker (BS # ''v 1b text'') = Some (''v'', ''1b text'')"
    by code_simp
  have h2: "(''v'' = ''c'' \<and> Atoi ''1b text'' = None) \<or> (''v'' = ''v'' \<and> Atoi (firstField ''1b text'') = None)"
    by code_simp
  have h3: "\<not> isl (ParseLines DefaultParseOptions 0 [BS # ''c 1''] None [])"
    by code_simp
  note t = numeric_failure_is_fatal [OF h1 h2, where opts = DefaultParseOptions and now = 0
      and pre = "[BS # ''c 1'']" and post = "[BS # ''v 2 more'']" and scanErr = None and src = "[]"]
  from t h3 have "ParseLines DefaultParseOptions 0
      ([BS # ''c 1''] @ (BS # ''v 1b text'') # [BS # ''v 2 more'']) None [] =
      Inl (LineError (Suc (length [BS # ''c 1'']))
            (if ''v'' = ''c'' then InvalidChapterNumber else InvalidVerseNumber))"
    by blast
  then show ?thesis
    by (simp add: numeral_2_eq_2)
qed

section \<open>Content before the first chapter marker\<close>

lemma closeSection_core: "core st = core st' \<Longrightarrow> closeSection st = closeSection st'"
  by (auto simp: closeSection_def core_def split: option.splits)

lemma closeChapter_core:
  "Chapters d = Chapters d' \<Longrightarrow> Chapters (closeChapter c d) = Chapters (closeChapter c d')"
  by (cases c) (simp_all add: closeChapter_def)

lemma handleMarker_core:
  assumes "core st = core st'"
  shows "map_sum (\<lambda>e. ()) core (handleMarker opts n m st) =
         map_sum (\<lambda>e. ()) core (handleMarker opts k m st')"
proof -
  from assms have e: "currentChapter st = currentChapter st'" "currentSection st = currentSection st'"
    "Chapters (doc st) = Chapters (doc st')"
    by (simp_all add: core_def)
  note cs = closeSection_core [OF assms]
  note cc = closeChapter_core [OF e(3)]
  consider "Tag m = ''c''" | "Tag m = ''v''" | "Tag m = ''r''" | "Tag m \<in> {''s1'', ''s2'', ''s3''}"
    | "Tag m \<notin> {''c'', ''v'', ''r'', ''s1'', ''s2'', ''s3''}"
    by blast
  then show ?thesis
  proof cases
    case 1
    then show ?thesis
      using cc [of "closeSection st'"]
      by (simp add: handleMarker_def core_def cs split: sum.splits)
  next
    case 2
    then show ?thesis
      by (simp add: handleMarker_def core_def e Let_def split: sum.splits)
  next
    case 3
    then show ?thesis
      by (simp add: handleMarker_def core_def e split: option.splits)
  next
    case 4
    then show ?thesis
      by (auto simp: handleMarker_def core_def e cs)
  next
    case 5
    then show ?thesis
      by (simp add: handleMarker_def core_def e addTOC_def)
  qed
qed

lemma step_core:
  assumes "core st = core st'"
  shows "map_sum (\<lambda>e. ()) core (step opts n l st) = map_sum (\<lambda>e. ()) core (step opts k l st')"
proof (cases "lineMarker l")
  case None
  with assms show ?thesis
    by (simp add: step_lineMarker)
next
  case (Some p)
  obtain t c where p: "p = (t, c)" by (cases p)
  have "handleMarker opts k \<lparr>Tag = t, Content = c, Line = k\<rparr> st' =
        handleMarker opts k (\<lparr>Tag = t, Content = c, Line = n\<rparr>\<lparr>Line := k\<rparr>) st'"
    by simp
  also have "\<dots> = handleMarker opts k \<lparr>Tag = t, Content = c, Line = n\<rparr> st'"
    by (simp only: handleMarker_Line)
  finally show ?thesis
    using handleMarker_core [OF assms, of opts n "\<lparr>Tag = t, Content = c, Line = n\<rparr>" k] Some p
    by (simp add: step_lineMarker)
qed

lemma parseLoop_core:
  "core st = core st' \<Longrightarrow>
   map_sum (\<lambda>e. ()) core (parseLoop opts n st ls) = map_sum (\<lambda>e. ()) core (parseLoop opts k st' ls)"
proof (induction ls arbitrary: n k st st')
  case Nil
  then show ?case by simp
next
  case (Cons l ls)
  from step_core [OF Cons.prems, of opts "Suc n" l "Suc k"]
  show ?case
  proof (cases "step opts (Suc n) l st"; cases "step opts (Suc k) l st'")
    fix s s'
    assume a: "step opts (Suc n) l st = Inr s" "step opts (Suc k) l st' = Inr s'"
    with step_core [OF Cons.prems, of opts "Suc n" l "Suc k"] have "core s = core s'"
      by simp
    from Cons.IH [OF this] a show ?thesis by simp
  qed auto
qed

lemma finish_core: "core st = core st' \<Longrightarrow> Chapters (finish st) = Chapters (finish st')"
  by (cases "currentChapter st'"; cases "currentSection st'")
    (auto simp: core_def finish_def closeSection_def closeChapter_def)

lemma handleMarker_before_chapter:
  assumes "handleMarker opts n m st = Inr st'" and "Tag m \<noteq> ''c''" and "currentChapter st = None"
  shows "currentChapter st' = None \<and> Chapters (doc st') = Chapters (doc st)"
proof -
  have cs: "closeSection st = None"
    using assms(3) by (cases "currentSection st") (simp_all add: closeSection_def)
  consider "Tag m = ''v''" | "Tag m = ''r''" | "Tag m \<in> {''s1'', ''s2'', ''s3''}"
    | "Tag m \<notin> {''c'', ''v'', ''r'', ''s1'', ''s2'', ''s3''}"
    using assms(2) by blast
  then show ?thesis
  proof cases
    case 1
    with assms show ?thesis
      by (auto simp: handleMarker_def Let_def split: sum.splits)
  next
    case 2
    with assms show ?thesis
      by (auto simp: handleMarker_def split: option.splits if_splits)
  next
    case 3
    with assms cs show ?thesis
      by (auto simp: handleMarker_def)
  next
    case 4
    with assms show ?thesis
      by (auto simp: handleMarker_def addTOC_def split: if_splits)
  qed
qed

lemma step_before_chapter:
  assumes "step opts n l st = Inr st'" and "\<not> isChapterLine l" and "currentChapter st = None"
  shows "currentChapter st' = None \<and> Chapters (doc st') = Chapters (doc st)"
proof (cases "lineMarker l")
  case None
  with assms show ?thesis
    by (auto simp: step_lineMarker split: if_splits)
next
  case (Some p)
  obtain t c where p: "p = (t, c)" by (cases p)
  from assms(2) Some p have t: "t \<noteq> ''c''"
    by (simp add: isChapterLine_def)
  from assms(1) Some p have "handleMarker opts n \<lparr>Tag = t, Content = c, Line = n\<rparr> st = Inr st'"
    by (simp add: step_lineMarker)
  from handleMarker_before_chapter [OF this _ assms(3)] t show ?thesis
    by simp
qed

lemma parseLoop_before_chapter:
  "parseLoop opts n st ls = Inr st' \<Longrightarrow> \<forall>l \<in> set ls. \<not> isChapterLine l \<Longrightarrow>
   currentChapter st = None \<Longrightarrow>
   currentChapter st' = None \<and> Chapters (doc st') = Chapters (doc st)"
proof (induction ls arbitrary: n st)
  case Nil
  then show ?case by simp
next
  case (Cons l ls)
  then obtain s1 where s1: "step opts (Suc n) l st = Inr s1" and r: "parseLoop opts (Suc n) s1 ls = Inr st'"
    by (auto split: sum.splits)
  from step_before_chapter [OF s1] Cons.prems
  have "currentChapter s1 = None" "Chapters (doc s1) = Chapters (doc st)"
    by simp_all
  with Cons.IH [OF r] Cons.prems show ?case by simp
qed

lemma step_chapter_core:
  assumes "isChapterLine l" and "currentChapter st = None" and "currentChapter st' = None"
    and "Chapters (doc st) = Chapters (doc st')"
  shows "map_sum (\<lambda>e. ()) core (step opts n l st) = map_sum (\<lambda>e. ()) core (step opts k l st')"
proof -
  from assms(1) obtain c where c: "lineMarker l = Some (''c'', c)"
    by (auto simp: isChapterLine_def split: option.splits)
  have cs: "closeSection st = None" "closeSection st' = None"
    using assms(2,3)
    by (cases "currentSection st", simp_all add: closeSection_def)
      (cases "currentSection st'", simp_all add: closeSection_def)
  show ?thesis
    using assms(4)
    by (simp add: step_lineMarker c handleMarker_def cs closeChapter_def core_def split: sum.splits)
qed

lemma finish_before_chapter:
  assumes "currentChapter st = None"
  shows "Chapters (finish st) = Chapters (doc st)"
  using assms by (cases "currentSection st") (simp_all add: finish_def closeSection_def closeChapter_def)

lemma handleMarker_fails_iff:
  "isl (handleMarker opts n m st) \<longleftrightarrow>
     (if Tag m = ''c'' then Atoi (TrimSpace (Content m)) = None
      else if Tag m = ''v'' then Atoi (takeWhile (\<lambda>x. x \<noteq> SP) (Content m)) = None
      else Tag m \<notin> set knownTags \<and> StrictMode opts)"
proof -
  consider "Tag m = ''c''" | "Tag m = ''v''" | "Tag m = ''r''" | "Tag m \<in> {''s1'', ''s2'', ''s3''}"
    | "Tag m \<in> {''id'', ''h'', ''toc1'', ''toc2'', ''toc3'', ''mt1''}" | "Tag m \<notin> set knownTags"
    unfolding knownTags_def by auto
  then show ?thesis
  proof cases
    case 1
    then show ?thesis
      by (simp add: handleMarker_def parseChapter_def split: option.splits)
  next
    case 2
    show ?thesis
    proof (cases "parseVerse (Content m) (IncludeFootnotes opts)")
      case (Inl e)
      with parseVerse_fails_iff [of "Content m" "IncludeFootnotes opts" e] 2 show ?thesis
        by (simp add: handleMarker_def)
    next
      case (Inr v)
      with parseVerse_fails_iff [of "Content m" "IncludeFootnotes opts" InvalidVerseNumber] 2 show ?thesis
        by (simp add: handleMarker_def Let_def)
    qed
  next
    case 3
    then show ?thesis
      by (simp add: handleMarker_def knownTags_def split: option.splits)
  next
    case 4
    then show ?thesis
      by (auto simp: handleMarker_def knownTags_def)
  next
    case 5
    then show ?thesis
      by (auto simp: handleMarker_def knownTags_def)
  next
    case 6
    then have "Tag m \<noteq> ''c''" "Tag m \<noteq> ''v''"
      by (auto simp: knownTags_def)
    with 6 show ?thesis
      by (simp add: handleMarker_unknown)
  qed
qed

lemma step_fails_iff: "isl (step opts n l st) \<longleftrightarrow> fatalLine opts l"
proof (cases "lineMarker l")
  case None
  then show ?thesis
    by (simp add: step_lineMarker fatalLine_def)
next
  case (Some p)
  obtain t c where p: "p = (t, c)" by (cases p)
  from Some p lineMarker_trimmed [of l t c] show ?thesis
    by (simp add: step_lineMarker fatalLine_def handleMarker_fails_iff)
qed

lemma parseLoop_fails_iff: "isl (parseLoop opts n st ls) \<longleftrightarrow> (\<exists>l \<in> set ls. fatalLine opts l)"
proof (induction ls arbitrary: n st)
  case Nil
  show ?case by simp
next
  case (Cons l ls)
  show ?case
  proof (cases "step opts (Suc n) l st")
    case (Inl e)
    with step_fails_iff [of opts "Suc n" l st] show ?thesis by simp
  next
    case (Inr s1)
    with step_fails_iff [of opts "Suc n" l st] Cons.IH [of "Suc n" s1] show ?thesis by simp
  qed
qed

lemma ParseLines_fails_iff:
  "isl (ParseLines opts now ls scanErr src) \<longleftrightarrow> (\<exists>l \<in> set ls. fatalLine opts l) \<or> scanErr \<noteq> None"
  using parseLoop_fails_iff [of opts 0 "initialState now src" ls]
  by (cases "parseLoop opts 0 (initialState now src) ls"; cases scanErr) (simp_all add: ParseLines_def)

lemma chapters_from_first_chapter:
  assumes "ParseLines opts now ls scanErr src = Inr d"
  shows "\<exists>d'. ParseLines opts now (dropWhile (\<lambda>l. \<not> isChapterLine l) ls) scanErr src = Inr d' \<and>
              Chapters d' = Chapters d"
proof -
  let ?pre = "takeWhile (\<lambda>l. \<not> isChapterLine l) ls" and ?post = "dropWhile (\<lambda>l. \<not> isChapterLine l) ls"
  let ?init = "initialState now src"
  from assms obtain st where st: "parseLoop opts 0 ?init ls = Inr st" and d: "d = finish st"
    and e: "scanErr = None"
    by (auto simp: ParseLines_def split: sum.splits option.splits)
  have ap: "parseLoop opts 0 ?init ls =
      (case parseLoop opts 0 ?init ?pre of
         Inl e \<Rightarrow> Inl e
       | Inr s \<Rightarrow> parseLoop opts (0 + length ?pre) s ?post)"
    using parseLoop_append [of opts 0 ?init ?pre ?post] by simp
  from st ap obtain s1 where s1: "parseLoop opts 0 ?init ?pre = Inr s1"
    and s2: "parseLoop opts (length ?pre) s1 ?post = Inr st"
    by (cases "parseLoop opts 0 ?init ?pre") auto
  have "\<forall>l \<in> set ?pre. \<not> isChapterLine l"
    by (auto dest: set_takeWhileD)
  from parseLoop_before_chapter [OF s1 this]
  have inv: "currentChapter s1 = None" "Chapters (doc s1) = Chapters (doc ?init)"
    by (simp_all add: initialState_def)
  have i: "currentChapter ?init = None"
    by (simp add: initialState_def)
  have "\<exists>st'. parseLoop opts 0 ?init ?post = Inr st' \<and> Chapters (finish st') = Chapters (finish st)"
  proof (cases ?post)
    case Nil
    from s2 have "st = s1"
      unfolding Nil by simp
    with inv i have "Chapters (finish ?init) = Chapters (finish st)"
      by (simp add: finish_before_chapter)
    moreover have "parseLoop opts 0 ?init ?post = Inr ?init"
      unfolding Nil by simp
    ultimately show ?thesis by blast
  next
    case (Cons l rest)
    then have c: "isChapterLine l"
      by (metis (mono_tags, lifting) hd_dropWhile list.distinct(1) list.sel(1))
    from s2 Cons obtain a where a: "step opts (Suc (length ?pre)) l s1 = Inr a"
      and ra: "parseLoop opts (Suc (length ?pre)) a rest = Inr st"
      by (cases "step opts (Suc (length ?pre)) l s1") auto
    from step_chapter_core [OF c inv(1) i inv(2), of opts "Suc (length ?pre)" "Suc 0"] a
    obtain b where b: "step opts (Suc 0) l ?init = Inr b" and ab: "core a = core b"
      by (cases "step opts (Suc 0) l ?init") auto
    from parseLoop_core [OF ab, of opts "Suc (length ?pre)" rest "Suc 0"] ra
    obtain st' where st': "parseLoop opts (Suc 0) b rest = Inr st'" and cst: "core st = core st'"
      by (cases "parseLoop opts (Suc 0) b rest") auto
    from b st' Cons finish_core [OF cst] show ?thesis by simp
  qed
  then obtain st' where st': "parseLoop opts 0 ?init ?post = Inr st'"
    and f: "Chapters (finish st') = Chapters (finish st)"
    by blast
  from st' e have "ParseLines opts now ?post scanErr src = Inr (finish st')"
    by (simp add: ParseLines_def)
  with f d show ?thesis by simp
qed

text \<open>
  C10. A section marker, and a verse marker whose number is an integer, is handled
  without error whatever the state of the loop, also when no chapter is open. The
  lines before the first chapter marker make the parse fail only by a line that is an
  error by itself; otherwise the parse fails exactly when the parse of the input from
  the first chapter marker on fails. When the parse succeeds, the input from its first
  chapter marker on parses successfully too and gives the same chapters: a section
  opened before the first chapter marker and the verses added to it are in no chapter,
  so they are nowhere in the document.
\<close>

theorem content_before_first_chapter_discarded:
  "(lineMarker l = Some (t, c) \<and>
      (t = ''s1'' \<or> t = ''s2'' \<or> t = ''s3'' \<or>
       (t = ''v'' \<and> Atoi (takeWhile (\<lambda>x. x \<noteq> SP) c) \<noteq> None)) \<longrightarrow>
      \<not> isl (step opts n l st)) \<and>
   (isl (step opts n l st) \<longleftrightarrow> fatalLine opts l) \<and>
   (isl (ParseLines opts now ls scanErr src) \<longleftrightarrow>
      (\<exists>x \<in> set (takeWhile (\<lambda>x. \<not> isChapterLine x) ls). fatalLine opts x) \<or>
      isl (ParseLines opts now (dropWhile (\<lambda>x. \<not> isChapterLine x) ls) scanErr src)) \<and>
   (\<forall>d. ParseLines opts now ls scanErr src = Inr d \<longrightarrow>
      (\<exists>d'. ParseLines opts now (dropWhile (\<lambda>x. \<not> isChapterLine x) ls) scanErr src = Inr d' \<and>
            Chapters d' = Chapters d))"
proof -
  let ?pre = "takeWhile (\<lambda>x. \<not> isChapterLine x) ls" and ?post = "dropWhile (\<lambda>x. \<not> isChapterLine x) ls"
  have a: "\<not> isl (step opts n l st)"
    if "lineMarker l = Some (t, c)"
      and "t = ''s1'' \<or> t = ''s2'' \<or> t = ''s3'' \<or> (t = ''v'' \<and> Atoi (takeWhile (\<lambda>x. x \<noteq> SP) c) \<noteq> None)"
    using that by (auto simp: step_fails_iff fatalLine_def knownTags_def)
  have "set ls = set ?pre \<union> set ?post"
    by (metis set_append takeWhile_dropWhile_id)
  then have b: "isl (ParseLines opts now ls scanErr src) \<longleftrightarrow>
      (\<exists>x \<in> set ?pre. fatalLine opts x) \<or> isl (ParseLines opts now ?post scanErr src)"
    unfolding ParseLines_fails_iff by blast
  from a b step_fails_iff [of opts n l st] chapters_from_first_chapter [of opts now ls scanErr src]
  show ?thesis
    by blast
qed

theorem content_before_first_chapter_discarded_witness:
  "\<not> isl (step DefaultParseOptions 1 (BS # ''s2 Lost heading'') (initialState 0 [])) \<and>
   ParseLines DefaultParseOptions 0
     [BS # ''s2 Lost heading'', BS # ''v 1 Lost verse'', BS # ''c 1'', BS # ''v 1 Kept''] None [] =
     Inr \<lparr>ID = [], Header = [], TableOfContents = NilSlice, MainTitle = [],
           Chapters = Slice
             [\<lparr>Chapter_Number = 1,
               Chapter_Sections = Slice
                 [\<lparr>Section_Level = 1, Section_Title = [], Section_Reference = [],
                   Section_Verses = Slice
                     [\<lparr>Verse_Number = 1, Verse_Text = ''Kept'', Verse_Footnotes = Slice []\<rparr>]\<rparr>]\<rparr>],
           ParsedAt = 0, SourceFile = []\<rparr> \<and>
   (\<exists>d'. ParseLines DefaultParseOptions 0 [BS # ''c 1'', BS # ''v 1 Kept''] None [] = Inr d' \<and>
         Chapters d' = Slice
             [\<lparr>Chapter_Number = 1,
               Chapter_Sections = Slice
                 [\<lparr>Section_Level = 1, Section_Title = [], Section_Reference = [],
                   Section_Verses = Slice
                     [\<lparr>Verse_Number = 1, Verse_Text = ''Kept'', Verse_Footnotes = Slice []\<rparr>]\<rparr>]\<rparr>])"
proof -
  let ?ls = "[BS # ''s2 Lost heading'', BS # ''v 1 Lost verse'', BS # ''c 1'', BS # ''v 1 Kept'']"
  let ?d = "\<lparr>ID = [], Header = [], TableOfContents = NilSlice, MainTitle = [],
           Chapters = Slice
             [\<lparr>Chapter_Number = 1,
               Chapter_Sections = Slice
                 [\<lparr>Section_Level = 1, Section_Title = [], Section_Reference = [],
                   Section_Verses = Slice
                     [\<lparr>Verse_Number = 1, Verse_Text = ''Kept'', Verse_Footnotes = Slice []\<rparr>]\<rparr>]\<rparr>],
           ParsedAt = 0, SourceFile = []\<rparr>"
  have h: "ParseLines DefaultParseOptions 0 ?ls None [] = Inr ?d"
    by code_simp
  have m: "lineMarker (BS # ''s2 Lost heading'') = Some (''s2'', ''Lost heading'')"
    by code_simp
  have dw: "dropWhile (\<lambda>x. \<not> isChapterLine x) ?ls = [BS # ''c 1'', BS # ''v 1 Kept'']"
    by code_simp
  note t = content_before_first_chapter_discarded [where l = "BS # ''s2 Lost heading''" and t = "''s2''"
      and c = "''Lost heading''" and opts = DefaultParseOptions and n = 1 and st = "initialState 0 []"
      and now = 0 and ls = ?ls and scanErr = None and src = "[]"]
  from t m have s: "\<not> isl (step DefaultParseOptions 1 (BS # ''s2 Lost heading'') (initialState 0 []))"
    by blast
  from t h have "\<exists>d'. ParseLines DefaultParseOptions 0 (dropWhile (\<lambda>x. \<not> isChapterLine x) ?ls) None [] = Inr d' \<and>
      Chapters d' = Chapters ?d"
    by blast
  with s h show ?thesis
    unfolding dw by simp
qed

section \<open>The marker tokenizer\<close>

lemma markerRegex_shape: "markerRegex line \<noteq> None \<longleftrightarrow> markerShape line"
proof
  assume "markerRegex line \<noteq> None"
  then obtain s1 where l: "line = BS # s1" and t: "takeWhile tagChar s1 \<noteq> []"
    by (cases line) (auto simp: markerRegex_def stripPrefix_def Let_def split: if_splits)
  define s2 where "s2 = dropWhile tagChar s1"
  define star where "star = (if prefix ''*'' s2 then ''*'' else [])"
  define s3 where "s3 = drop (length star) s2"
  have s23: "star @ s3 = s2"
    by (auto simp: star_def s3_def prefix_def)
  have "line = BS # takeWhile tagChar s1 @ star @ takeWhile reSpace s3 @ dropWhile reSpace s3"
    unfolding takeWhile_dropWhile_id s23 s2_def by (rule l)
  moreover have "list_all tagChar (takeWhile tagChar s1)" "list_all reSpace (takeWhile reSpace s3)"
    by (auto simp: list_all_iff dest: set_takeWhileD)
  moreover have "star = [] \<or> star = ''*''"
    by (simp add: star_def)
  ultimately show "markerShape line"
    using t unfolding markerShape_def by blast
next
  assume "markerShape line"
  then obtain tag star ws content where l: "line = BS # tag @ star @ ws @ content"
    and t: "tag \<noteq> []" "list_all tagChar tag"
    unfolding markerShape_def by blast
  from t have "takeWhile tagChar (tag @ star @ ws @ content) \<noteq> []"
    by (cases tag) auto
  with l show "markerRegex line \<noteq> None"
    by (simp add: markerRegex_def stripPrefix_def Let_def)
qed

lemma reSpace_leading:
  assumes "reSpace c"
  shows "leadingSpace (c # cs) = 1"
proof -
  from assms consider "c = CHR 0x09" | "c = CHR 0x0A" | "c = CHR 0x0C" | "c = CHR 0x0D" | "c = SP"
    unfolding reSpace_def by blast
  then show ?thesis
    by cases (simp_all add: leadingSpace_def spaceRunes_def)
qed

lemma TrimLeft_dropWhile_reSpace: "TrimLeft (dropWhile reSpace s) = TrimLeft s"
proof (induction s)
  case Nil
  show ?case by simp
next
  case (Cons c cs)
  show ?case
  proof (cases "reSpace c")
    case True
    then have "TrimLeft (c # cs) = TrimLeft cs"
      by (subst TrimLeft.simps) (simp add: reSpace_leading)
    with True Cons show ?thesis by simp
  next
    case False
    then show ?thesis by simp
  qed
qed

lemma TrimSpace_dropWhile_reSpace: "TrimSpace (dropWhile reSpace s) = TrimSpace s"
  by (simp add: TrimSpace_def TrimLeft_dropWhile_reSpace)

lemma set_TrimLeft: "set (TrimLeft s) \<subseteq> set s"
proof (induction s rule: TrimLeft.induct)
  case (1 s)
  show ?case
  proof (cases "leadingSpace s = 0")
    case True
    then show ?thesis by (subst TrimLeft.simps) simp
  next
    case False
    from 1 [OF False] have "set (TrimLeft (drop (leadingSpace s) s)) \<subseteq> set s"
      by (meson order_trans set_drop_subset)
    with False show ?thesis by (subst TrimLeft.simps) simp
  qed
qed

lemma set_TrimSpace: "set (TrimSpace s) \<subseteq> set s"
proof -
  have "set (TrimRight (TrimLeft s)) \<subseteq> set (TrimLeft s)"
    using TrimRight_prefix [of "TrimLeft s"] by (rule set_mono_prefix)
  with set_TrimLeft [of s] show ?thesis
    by (auto simp: TrimSpace_def)
qed

lemma tagChar_SP: "\<not> tagChar SP" and tagChar_star: "\<not> tagChar (CHR ''*'')"
  by (simp_all add: tagChar_def)

lemma takeWhile_no_NL: "NL \<notin> set s \<Longrightarrow> takeWhile (\<lambda>c. c \<noteq> NL) s = s"
  by (induction s) auto

lemma markerRegex_tag_content:
  assumes "tag \<noteq> []" and "list_all tagChar tag" and "NL \<notin> set content"
  shows "markerRegex (BS # tag @ SP # content) = Some (tag, dropWhile reSpace content)"
proof -
  from assms(2) have a: "\<And>x. x \<in> set tag \<Longrightarrow> tagChar x"
    by (simp add: list_all_iff)
  have tw: "takeWhile tagChar (tag @ SP # content) = tag"
    using a by (simp add: takeWhile_append2 tagChar_SP)
  have dw: "dropWhile tagChar (tag @ SP # content) = SP # content"
    using a by (simp add: dropWhile_append2 tagChar_SP)
  have "NL \<notin> set (dropWhile reSpace content)"
    using assms(3) by (meson set_dropWhileD)
  then have "takeWhile (\<lambda>c. c \<noteq> NL) (dropWhile reSpace content) = dropWhile reSpace content"
    by (rule takeWhile_no_NL)
  then show ?thesis
    using assms(1)
    by (simp add: markerRegex_def stripPrefix_def Let_def tw dw reSpace_def)
qed

lemma parseMarker_tag_content:
  assumes "tag \<noteq> []" and "list_all tagChar tag" and "NL \<notin> set content"
  shows "parseMarker (BS # tag @ SP # content) n = Inr \<lparr>Tag = tag, Content = TrimSpace content, Line = n\<rparr>"
  by (simp add: parseMarker_def markerRegex_tag_content [OF assms] TrimSpace_dropWhile_reSpace)

lemma parseMarker_result:
  assumes "parseMarker line n = Inr m"
  shows "Tag m \<noteq> [] \<and> list_all tagChar (Tag m) \<and> NL \<notin> set (Content m) \<and>
         TrimSpace (Content m) = Content m \<and> Line m = n"
proof -
  from assms obtain g1 g2 where r: "markerRegex line = Some (g1, g2)"
    and m: "m = \<lparr>Tag = g1, Content = TrimSpace g2, Line = n\<rparr>"
    by (auto simp: parseMarker_def split: if_splits option.splits)
  from r obtain s where g1: "g1 = takeWhile tagChar s" "g1 \<noteq> []"
    and g2: "\<exists>u. g2 = takeWhile (\<lambda>c. c \<noteq> NL) u"
    by (auto simp: markerRegex_def Let_def split: option.splits if_splits)
  from g2 have "NL \<notin> set g2"
    by (auto dest: set_takeWhileD)
  with set_TrimSpace [of g2] have "NL \<notin> set (TrimSpace g2)"
    by auto
  moreover have "list_all tagChar g1"
    using g1(1) by (auto simp: list_all_iff dest: set_takeWhileD)
  ultimately show ?thesis
    using g1(2) by (simp add: m)
qed

text \<open>
  C6, as the code has it, the white space after the tag being optional. The tokenizer
  fails with \<open>NotAMarker\<close> exactly when the line does not start with the
  backslash, and with \<open>InvalidMarkerFormat\<close> exactly when it starts with the backslash
  and has not the shape of a marker line; otherwise it succeeds. On a line that is the
  backslash, a tag, one space and a content without line feed, it returns the tag, the
  trimmed content and the line number; and joining the tag and content of any result
  with one space gives a line that tokenises to the same result.
\<close>

theorem marker_tokenizer:
  "(parseMarker line n = Inl NotAMarker \<longleftrightarrow> \<not> prefix [BS] line) \<and>
   (parseMarker line n = Inl InvalidMarkerFormat \<longleftrightarrow> prefix [BS] line \<and> \<not> markerShape line) \<and>
   ((\<exists>m. parseMarker line n = Inr m) \<longleftrightarrow> markerShape line) \<and>
   (tag \<noteq> [] \<and> list_all tagChar tag \<and> NL \<notin> set content \<longrightarrow>
      parseMarker (BS # tag @ SP # content) n =
        Inr \<lparr>Tag = tag, Content = TrimSpace content, Line = n\<rparr>) \<and>
   (\<forall>m. parseMarker line n = Inr m \<longrightarrow> parseMarker (BS # Tag m @ SP # Content m) n = Inr m)"
proof -
  have shape_prefix: "markerShape line \<Longrightarrow> prefix [BS] line"
    by (auto simp: markerShape_def)
  have a: "parseMarker line n = Inl NotAMarker \<longleftrightarrow> \<not> prefix [BS] line"
    by (auto simp: parseMarker_def split: option.splits)
  have b: "parseMarker line n = Inl InvalidMarkerFormat \<longleftrightarrow> prefix [BS] line \<and> \<not> markerShape line"
    using markerRegex_shape [of line] by (auto simp: parseMarker_def split: option.splits)
  have c: "(\<exists>m. parseMarker line n = Inr m) \<longleftrightarrow> markerShape line"
    using markerRegex_shape [of line] shape_prefix by (auto simp: parseMarker_def split: option.splits)
  have d: "tag \<noteq> [] \<and> list_all tagChar tag \<and> NL \<notin> set content \<longrightarrow>
      parseMarker (BS # tag @ SP # content) n =
        Inr \<lparr>Tag = tag, Content = TrimSpace content, Line = n\<rparr>"
    using parseMarker_tag_content by blast
  have e: "parseMarker (BS # Tag m @ SP # Content m) n = Inr m" if "parseMarker line n = Inr m" for m
  proof -
    from parseMarker_result [OF that] parseMarker_tag_content [of "Tag m" "Content m" n]
    have "parseMarker (BS # Tag m @ SP # Content m) n = Inr \<lparr>Tag = Tag m, Content = Content m, Line = Line m\<rparr>"
      by simp
    then show ?thesis by simp
  qed
  from a b c d e show ?thesis by blast
qed

theorem marker_tokenizer_witness:
  "parseMarker (BS # ''s1'' @ SP # '' The  Creation '') 7 =
     Inr \<lparr>Tag = ''s1'', Content = ''The  Creation'', Line = 7\<rparr> \<and>
   parseMarker (BS # ''s1'' @ SP # ''The  Creation'') 7 =
     Inr \<lparr>Tag = ''s1'', Content = ''The  Creation'', Line = 7\<rparr>"
proof -
  have h: "''s1'' \<noteq> [] \<and> list_all tagChar ''s1'' \<and> NL \<notin> set '' The  Creation ''"
    by code_simp
  have t: "TrimSpace '' The  Creation '' = ''The  Creation''"
    by code_simp
  note w = marker_tokenizer [of "BS # ''s1'' @ SP # '' The  Creation ''" 7 "''s1''" "'' The  Creation ''"]
  from w h have p: "parseMarker (BS # ''s1'' @ SP # '' The  Creation '') 7 =
      Inr \<lparr>Tag = ''s1'', Content = TrimSpace '' The  Creation '', Line = 7\<rparr>"
    by blast
  with w have "parseMarker (BS # Tag \<lparr>Tag = ''s1'', Content = TrimSpace '' The  Creation '', Line = 7\<rparr> @ SP #
      Content \<lparr>Tag = ''s1'', Content = TrimSpace '' The  Creation '', Line = 7\<rparr>) 7 =
      Inr \<lparr>Tag = ''s1'', Content = TrimSpace '' The  Creation '', Line = 7\<rparr>"
    by blast
  with p show ?thesis
    by (simp add: t)
qed

lemma markerShapeAsStated_space:
  assumes "markerShapeAsStated line"
  shows "\<exists>x \<in> set line. reSpace x"
proof -
  from assms obtain tag star ws content where l: "line = BS # tag @ star @ ws @ content"
    and w: "ws \<noteq> []" "list_all reSpace ws"
    unfolding markerShapeAsStated_def by blast
  from w have "hd ws \<in> set ws" "reSpace (hd ws)"
    by (auto simp: list_all_iff)
  with l show ?thesis by auto
qed

lemma markerShapeAsStated_markerShape: "markerShapeAsStated line \<Longrightarrow> markerShape line"
  unfolding markerShapeAsStated_def markerShape_def by blast

text \<open>
  C6, counterexample. With the white space as a component of the pattern, a bare tag
  and a tag directly followed by other text have not the shape of a marker line, and
  the claim has them fail with \<open>InvalidMarkerFormat\<close>; the tokenizer returns a marker
  for both.
\<close>

theorem marker_tokenizer_counterexample:
  "prefix [BS] (BS # ''p'') \<and> \<not> markerShapeAsStated (BS # ''p'') \<and>
   parseMarker (BS # ''p'') 1 = Inr \<lparr>Tag = ''p'', Content = [], Line = 1\<rparr> \<and>
   prefix [BS] (BS # ''idGEN'') \<and> \<not> markerShapeAsStated (BS # ''idGEN'') \<and>
   parseMarker (BS # ''idGEN'') 1 = Inr \<lparr>Tag = ''id'', Content = ''GEN'', Line = 1\<rparr>"
proof -
  have "\<not> (\<exists>x \<in> set (BS # ''p''). reSpace x)" "\<not> (\<exists>x \<in> set (BS # ''idGEN''). reSpace x)"
    by (simp_all add: reSpace_def)
  then have "\<not> markerShapeAsStated (BS # ''p'')" "\<not> markerShapeAsStated (BS # ''idGEN'')"
    using markerShapeAsStated_space by blast+
  moreover have "parseMarker (BS # ''p'') 1 = Inr \<lparr>Tag = ''p'', Content = [], Line = 1\<rparr>"
    "parseMarker (BS # ''idGEN'') 1 = Inr \<lparr>Tag = ''id'', Content = ''GEN'', Line = 1\<rparr>"
    by code_simp+
  ultimately show ?thesis by simp
qed

text \<open>
  The white space between tag and content may be absent, and so may the content: a tag
  directly followed by other text, and a bare tag, are marker lines.
\<close>

lemma marker_without_space_examples:
  "parseMarker (BS # ''idGEN'') 1 = Inr \<lparr>Tag = ''id'', Content = ''GEN'', Line = 1\<rparr>"
  "parseMarker (BS # ''p'') 1 = Inr \<lparr>Tag = ''p'', Content = [], Line = 1\<rparr>"
  "parseMarker [BS] 1 = Inl InvalidMarkerFormat"
  "parseMarker ''Not a marker'' 1 = Inl NotAMarker"
  by code_simp+

section \<open>Footnote blocks\<close>

lemma stripPrefix_append [simp]: "stripPrefix p (p @ s) = Some s"
  by (simp add: stripPrefix_def)

lemma stripPrefix_Some: "stripPrefix p s = Some r \<longleftrightarrow> s = p @ r"
  by (auto simp: stripPrefix_def prefix_def)

lemma reSpace_notBS: "reSpace c \<Longrightarrow> notBS c"
  by (auto simp: reSpace_def notBS_def)

lemma dropWhile_to_backslash:
  assumes "list_all notBS x"
  shows "dropWhile notBS (dropWhile reSpace (x @ BS # t)) = BS # t"
  using assms
proof (induction x)
  case Nil
  show ?case by (simp add: reSpace_def notBS_def)
next
  case (Cons c x)
  then have c: "notBS c" and x: "list_all notBS x" by simp_all
  have "dropWhile notBS (c # x @ BS # t) = BS # t"
    using c x by (simp add: dropWhile_append2 list_all_iff notBS_def)
  with Cons.IH [OF x] show ?case by simp
qed

lemma footnoteSegment_intro:
  assumes "list_all reSpace w" and "list_all notBS g"
  shows "\<exists>g'. footnoteSegment p (p @ w @ g @ BS # t) = Some (g', BS # t)"
proof -
  from assms have "list_all notBS (w @ g)"
    by (auto simp: list_all_iff reSpace_notBS)
  from dropWhile_to_backslash [OF this, of t] show ?thesis
    by (simp add: footnoteSegment_def)
qed

lemma footnoteSegment_elim:
  assumes "footnoteSegment p s = Some (g, r)"
  shows "\<exists>w. s = p @ w @ g @ r \<and> list_all reSpace w \<and> list_all notBS g"
proof -
  from assms obtain t where t: "s = p @ t" and g: "g = takeWhile notBS (dropWhile reSpace t)"
    and r: "r = dropWhile notBS (dropWhile reSpace t)"
    by (auto simp: footnoteSegment_def stripPrefix_Some split: option.splits)
  have "t = takeWhile reSpace t @ g @ r"
    by (simp add: g r)
  moreover have "list_all reSpace (takeWhile reSpace t)" "list_all notBS g"
    by (auto simp: g list_all_iff dest: set_takeWhileD)
  ultimately show ?thesis
    using t by blast
qed

lemma footnoteMatch_shape: "footnoteMatch s \<noteq> None \<longleftrightarrow> footnoteShape s"
proof
  assume "footnoteMatch s \<noteq> None"
  then obtain g1 s1 where a1: "footnoteSegment (BS # ''f'') s = Some (g1, s1)"
    by (auto simp: footnoteMatch_def split: option.splits)
  with \<open>footnoteMatch s \<noteq> None\<close> obtain g2 s2 where a2: "footnoteSegment (BS # ''fr'') s1 = Some (g2, s2)"
    by (auto simp: footnoteMatch_def split: option.splits)
  with a1 \<open>footnoteMatch s \<noteq> None\<close> obtain g3 s3 where a3: "footnoteSegment (BS # ''ft'') s2 = Some (g3, s3)"
    by (auto simp: footnoteMatch_def split: option.splits)
  with a1 a2 \<open>footnoteMatch s \<noteq> None\<close> obtain r where a4: "s3 = (BS # ''f*'') @ r"
    by (auto simp: footnoteMatch_def stripPrefix_Some split: option.splits)
  from footnoteSegment_elim [OF a1] obtain w1 where
    b1: "s = (BS # ''f'') @ w1 @ g1 @ s1" "list_all reSpace w1" "list_all notBS g1" by blast
  from footnoteSegment_elim [OF a2] obtain w2 where
    b2: "s1 = (BS # ''fr'') @ w2 @ g2 @ s2" "list_all reSpace w2" "list_all notBS g2" by blast
  from footnoteSegment_elim [OF a3] obtain w3 where
    b3: "s2 = (BS # ''ft'') @ w3 @ g3 @ s3" "list_all reSpace w3" "list_all notBS g3" by blast
  have "s = (BS # ''f'') @ w1 @ g1 @ (BS # ''fr'') @ w2 @ g2 @ (BS # ''ft'') @ w3 @ g3 @ (BS # ''f*'') @ r"
    by (simp only: b1(1) b2(1) b3(1) a4)
  with b1(2,3) b2(2,3) b3(2,3) show "footnoteShape s"
    unfolding footnoteShape_def by blast
next
  assume "footnoteShape s"
  then obtain w1 g1 w2 g2 w3 g3 r where
    s: "s = (BS # ''f'') @ w1 @ g1 @ (BS # ''fr'') @ w2 @ g2 @ (BS # ''ft'') @ w3 @ g3 @ (BS # ''f*'') @ r"
    and w: "list_all reSpace w1" "list_all reSpace w2" "list_all reSpace w3"
    and g: "list_all notBS g1" "list_all notBS g2" "list_all notBS g3"
    unfolding footnoteShape_def by blast
  let ?t3 = "''f*'' @ r"
  let ?t2 = "''ft'' @ w3 @ g3 @ BS # ?t3"
  let ?t1 = "''fr'' @ w2 @ g2 @ BS # ?t2"
  from footnoteSegment_intro [OF w(1) g(1), of "BS # ''f''" ?t1]
  obtain h1 where c1: "footnoteSegment (BS # ''f'') s = Some (h1, BS # ?t1)"
    by (auto simp: s)
  from footnoteSegment_intro [OF w(2) g(2), of "BS # ''fr''" ?t2]
  obtain h2 where c2: "footnoteSegment (BS # ''fr'') (BS # ?t1) = Some (h2, BS # ?t2)"
    by auto
  from footnoteSegment_intro [OF w(3) g(3), of "BS # ''ft''" ?t3]
  obtain h3 where c3: "footnoteSegment (BS # ''ft'') (BS # ?t2) = Some (h3, BS # ?t3)"
    by auto
  have c4: "stripPrefix (BS # ''f*'') (BS # ?t3) = Some r"
    by (simp add: stripPrefix_Some)
  from c1 c2 c3 c4 show "footnoteMatch s \<noteq> None"
    by (simp add: footnoteMatch_def)
qed

lemma no_footnote_prefix:
  assumes "\<forall>p \<in> set (suffixes pre). p \<noteq> [] \<longrightarrow> footnoteMatch (p @ rest) = None"
  shows "FindAllFootnotes (pre @ rest) = FindAllFootnotes rest \<and>
         ReplaceAllFootnotes (pre @ rest) = pre @ ReplaceAllFootnotes rest"
  using assms
proof (induction pre)
  case Nil
  show ?case by simp
next
  case (Cons c pre)
  from Cons.prems have "footnoteMatch ((c # pre) @ rest) = None"
    by simp
  moreover from Cons.prems have "\<forall>p \<in> set (suffixes pre). p \<noteq> [] \<longrightarrow> footnoteMatch (p @ rest) = None"
    by simp
  ultimately show ?case
    using Cons.IH by simp
qed

lemma footnoteMatch_suffix:
  assumes "footnoteMatch s = Some (g, r)"
  shows "drop (length s - length r) s = r"
proof -
  from assms obtain g1 s1 where a1: "footnoteSegment (BS # ''f'') s = Some (g1, s1)"
    by (auto simp: footnoteMatch_def split: option.splits)
  with assms obtain g2 s2 where a2: "footnoteSegment (BS # ''fr'') s1 = Some (g2, s2)"
    by (auto simp: footnoteMatch_def split: option.splits)
  with a1 assms obtain g3 s3 where a3: "footnoteSegment (BS # ''ft'') s2 = Some (g3, s3)"
    by (auto simp: footnoteMatch_def split: option.splits)
  with a1 a2 assms have a4: "s3 = (BS # ''f*'') @ r"
    by (auto simp: footnoteMatch_def stripPrefix_Some split: option.splits)
  from footnoteSegment_elim [OF a1] obtain u1 where "s = u1 @ s1" by (metis append.assoc)
  moreover from footnoteSegment_elim [OF a2] obtain u2 where "s1 = u2 @ s2" by (metis append.assoc)
  moreover from footnoteSegment_elim [OF a3] obtain u3 where "s2 = u3 @ s3" by (metis append.assoc)
  ultimately have "s = (u1 @ u2 @ u3 @ BS # ''f*'') @ r"
    using a4 by simp
  then show ?thesis
    by (metis add_diff_cancel_right' append_eq_conv_conj length_append)
qed

lemma scanTo_sound:
  "scanTo n s = Some (kept, found) \<Longrightarrow>
   n \<le> length s \<and>
   ReplaceAllFootnotes s = kept @ ReplaceAllFootnotes (drop n s) \<and>
   FindAllFootnotes s = found @ FindAllFootnotes (drop n s)"
proof (induction n s arbitrary: kept found rule: scanTo.induct)
  case (1 s)
  then show ?case by simp
next
  case (2 n)
  then show ?case by simp
next
  case (3 n c cs)
  show ?case
  proof (cases "footnoteMatch (c # cs)")
    case None
    with "3.prems" obtain k where k: "scanTo n cs = Some (k, found)" and kept: "kept = c # k"
      by auto
    from "3.IH"(1) [OF None k] None kept show ?thesis
      by simp
  next
    case (Some p)
    obtain g r where p: "p = (g, r)" by (cases p)
    let ?w = "length (c # cs) - length r"
    from "3.prems" Some p have w: "?w \<le> Suc n"
      by (auto split: if_splits)
    with "3.prems" Some p obtain f where f: "scanTo (Suc n - ?w) r = Some (kept, f)"
      and found: "found = g # f"
      by auto
    from Some p have m: "footnoteMatch (c # cs) = Some (g, r)" by simp
    from footnoteMatch_suffix [OF m] have r: "drop ?w (c # cs) = r" .
    have "drop (Suc n) (c # cs) = drop (Suc n - ?w) (drop ?w (c # cs))"
      using w by (simp only: drop_drop) simp
    then have d: "drop (Suc n) (c # cs) = drop (Suc n - ?w) r"
      by (simp only: r)
    from footnoteMatch_length [OF m] have lr: "length r < length (c # cs)" .
    from "3.IH"(2) [OF m refl w f]
    have ih: "Suc n - ?w \<le> length r"
      "ReplaceAllFootnotes r = kept @ ReplaceAllFootnotes (drop (Suc n - ?w) r)"
      "FindAllFootnotes r = f @ FindAllFootnotes (drop (Suc n - ?w) r)"
      by simp_all
    from ih(1) lr have "Suc n \<le> length (c # cs)"
      by simp
    moreover have "ReplaceAllFootnotes (c # cs) = kept @ ReplaceAllFootnotes (drop (Suc n) (c # cs))"
      unfolding d using m ih(2) by simp
    moreover have "FindAllFootnotes (c # cs) = found @ FindAllFootnotes (drop (Suc n) (c # cs))"
      unfolding d using m ih(3) found by simp
    ultimately show ?thesis by blast
  qed
qed

lemma extractFootnotes_footnoteOf:
  "extractFootnotes text = Slice (map footnoteOf (FindAllFootnotes text))"
  by (auto simp: extractFootnotes_def footnoteOf_def)

text \<open>
  C9, as the code has it. Take a stretch of a verse body that starts where the search
  for the next footnote block stands, at the front of the body or after the text kept
  and the blocks matched before it, and at no position of which a footnote block
  starts. The stretch yields no footnote and stays in the text as it is, before space
  collapsing and trimming: the footnotes are those found before and after it, the text
  is what was kept before it, the stretch, and what is kept after it, and the verse
  marker is handled without error whatever the options.
\<close>

theorem malformed_footnote_left_in_text:
  assumes "scanTo (length lead) (lead @ pre @ rest) = Some (kept, found)"
    and "\<forall>p \<in> set (suffixes pre). p \<noteq> [] \<longrightarrow> \<not> footnoteShape (p @ rest)"
  shows "FindAllFootnotes (lead @ pre @ rest) = found @ FindAllFootnotes rest \<and>
         ReplaceAllFootnotes (lead @ pre @ rest) = kept @ pre @ ReplaceAllFootnotes rest \<and>
         (\<forall>tok n. Atoi tok = Some n \<longrightarrow>
            parseVerse (tok @ SP # lead @ pre @ rest) True =
              Inr \<lparr>Verse_Number = n,
                    Verse_Text = TrimSpace (collapseSpaces (kept @ pre @ ReplaceAllFootnotes rest)),
                    Verse_Footnotes = Slice (map footnoteOf (found @ FindAllFootnotes rest))\<rparr> \<and>
            (\<forall>opts k st.
               \<not> isl (handleMarker opts k
                        \<lparr>Tag = ''v'', Content = tok @ SP # lead @ pre @ rest, Line = k\<rparr> st)))"
proof -
  let ?body = "lead @ pre @ rest"
  from assms(2) have "\<forall>p \<in> set (suffixes pre). p \<noteq> [] \<longrightarrow> footnoteMatch (p @ rest) = None"
    using footnoteMatch_shape by blast
  note n = no_footnote_prefix [OF this]
  from scanTo_sound [OF assms(1)] n
  have a: "FindAllFootnotes ?body = found @ FindAllFootnotes rest"
    and b: "ReplaceAllFootnotes ?body = kept @ pre @ ReplaceAllFootnotes rest"
    by simp_all
  have c: "parseVerse (tok @ SP # ?body) True =
        Inr \<lparr>Verse_Number = n,
              Verse_Text = TrimSpace (collapseSpaces (kept @ pre @ ReplaceAllFootnotes rest)),
              Verse_Footnotes = Slice (map footnoteOf (found @ FindAllFootnotes rest))\<rparr>"
    if "Atoi tok = Some n" for tok n
    using that a b
    by (simp add: parseVerse_def SplitN2_space Atoi_no_space removeFootnoteMarkers_def
        extractFootnotes_footnoteOf)
  have d: "\<not> isl (handleMarker opts k \<lparr>Tag = ''v'', Content = tok @ SP # ?body, Line = k\<rparr> st)"
    if "Atoi tok = Some n" for tok n opts k st
  proof (cases "IncludeFootnotes opts")
    case True
    with c [OF that] show ?thesis
      by (simp add: handleMarker_def Let_def)
  next
    case False
    with parseVerse_raw_body [OF that, of ?body] show ?thesis
      by (simp add: handleMarker_def Let_def)
  qed
  from a b c d show ?thesis
    by blast
qed

theorem malformed_footnote_left_in_text_witness:
  "parseVerse (''7 A '' @ BS # ''f + '' @ BS # ''fr 1:1 '' @ BS # ''ft ok'' @ BS # ''f*  B '' @
               BS # ''f + '' @ BS # ''fr 2:2 note without end '') True =
     Inr \<lparr>Verse_Number = 7,
           Verse_Text = ''A B '' @ BS # ''f + '' @ BS # ''fr 2:2 note without end'',
           Verse_Footnotes = Slice
             [\<lparr>Footnote_Caller = ''+'', Footnote_Reference = ''1:1'', Footnote_Text = ''ok''\<rparr>]\<rparr>"
proof -
  let ?lead = "''A '' @ BS # ''f + '' @ BS # ''fr 1:1 '' @ BS # ''ft ok'' @ BS # ''f*''"
  let ?pre = "''  B '' @ BS # ''f + '' @ BS # ''fr 2:2 note without end ''"
  have s: "scanTo (length ?lead) (?lead @ ?pre @ []) = Some (''A '', [(''+ '', ''1:1 '', ''ok'')])"
    by code_simp
  have "list_all (\<lambda>p. p = [] \<or> footnoteMatch (p @ []) = None) (suffixes ?pre)"
    by code_simp
  then have "\<forall>p \<in> set (suffixes ?pre). p = [] \<or> footnoteMatch (p @ []) = None"
    by (simp only: list_all_iff)
  then have h: "\<forall>p \<in> set (suffixes ?pre). p \<noteq> [] \<longrightarrow> \<not> footnoteShape (p @ [])"
    using footnoteMatch_shape by blast
  have n: "Atoi ''7'' = Some 7"
    by code_simp
  have t: "TrimSpace (collapseSpaces (''A '' @ ?pre @ ReplaceAllFootnotes [])) =
           ''A B '' @ BS # ''f + '' @ BS # ''fr 2:2 note without end''"
    by code_simp
  have f: "map footnoteOf ([(''+ '', ''1:1 '', ''ok'')] @ FindAllFootnotes []) =
           [\<lparr>Footnote_Caller = ''+'', Footnote_Reference = ''1:1'', Footnote_Text = ''ok''\<rparr>]"
    by code_simp
  from malformed_footnote_left_in_text [OF s h] n
  have "parseVerse (''7'' @ SP # ?lead @ ?pre @ []) True =
      Inr \<lparr>Verse_Number = 7,
            Verse_Text = TrimSpace (collapseSpaces (''A '' @ ?pre @ ReplaceAllFootnotes [])),
            Verse_Footnotes = Slice (map footnoteOf ([(''+ '', ''1:1 '', ''ok'')] @ FindAllFootnotes []))\<rparr>"
    by blast
  then show ?thesis
    unfolding t f by simp
qed

text \<open>
  C9, counterexample. In the body \<open>A \\f + \\fr 1:1 \\fr 1:2 \\ft text\\f* B\<close> the opener \<open>\\f\<close> is
  not followed by the complete block, yet a footnote results and part of the markup
  is removed: \<open>\\fr\<close> begins with \<open>\\f\<close>, and the pattern matches from the first \<open>\\fr\<close> on,
  with \<open>r 1:1\<close> as the caller.
\<close>

theorem malformed_footnote_counterexample:
  "\<not> footnoteShape (BS # ''f + '' @ BS # ''fr 1:1 '' @ BS # ''fr 1:2 '' @ BS # ''ft text'' @ BS # ''f* B'') \<and>
   parseVerse (''1 A '' @ BS # ''f + '' @ BS # ''fr 1:1 '' @ BS # ''fr 1:2 '' @ BS # ''ft text'' @ BS # ''f* B'') True =
     Inr \<lparr>Verse_Number = 1, Verse_Text = ''A '' @ BS # ''f + B'',
           Verse_Footnotes = Slice
             [\<lparr>Footnote_Caller = ''r 1:1'', Footnote_Reference = ''1:2'', Footnote_Text = ''text''\<rparr>]\<rparr>"
proof -
  have "footnoteMatch (BS # ''f + '' @ BS # ''fr 1:1 '' @ BS # ''fr 1:2 '' @ BS # ''ft text'' @ BS # ''f* B'') = None"
    by code_simp
  then have "\<not> footnoteShape (BS # ''f + '' @ BS # ''fr 1:1 '' @ BS # ''fr 1:2 '' @ BS # ''ft text'' @ BS # ''f* B'')"
    using footnoteMatch_shape by blast
  moreover have "parseVerse (''1 A '' @ BS # ''f + '' @ BS # ''fr 1:1 '' @ BS # ''fr 1:2 '' @ BS # ''ft text'' @ BS # ''f* B'') True =
     Inr \<lparr>Verse_Number = 1, Verse_Text = ''A '' @ BS # ''f + B'',
           Verse_Footnotes = Slice
             [\<lparr>Footnote_Caller = ''r 1:1'', Footnote_Reference = ''1:2'', Footnote_Text = ''text''\<rparr>]\<rparr>"
    by code_simp
  ultimately show ?thesis by blast
qed

end
